theory Spec2Isabelle
  imports Complex_Main "HOL-Library.Multiset"
begin

section \<open>JavaScript numbers: IEEE 754 double precision\<close>

text \<open>
  A JavaScript number is a binary64 value. The finite ones are the reals
  \<open>m * 2^e\<close> with an integer \<open>m\<close>, \<open>\<bar>m\<bar> < 2^53\<close> and
  \<open>-1074 \<le> e\<close>; every arithmetic operator returns the exact result rounded to the
  nearest such value, a tie going to the even significand.

  \<open>round_even\<close> rounds a real to the nearest integer, ties to even.
  \<open>ulp_exponent x\<close> is the exponent of the last significand bit at \<open>x\<close>: 52
  below the binade of \<open>x\<close>, and \<open>-1074\<close> throughout the subnormal range.
  \<open>fl x\<close> is \<open>x\<close> rounded to the nearest double. The exponent is not bounded
  above in \<open>fl\<close>: a result of magnitude \<open>2^1024\<close> or more stands for an
  overflow (see \<open>js_round\<close> in the language aggregator, where \<open>Infinity\<close> and
  \<open>NaN\<close> are values). Both zeros are the real \<open>0\<close>.
\<close>

definition round_even :: "real \<Rightarrow> int" where
  "round_even r =
     (if r - of_int \<lfloor>r\<rfloor> < 1 / 2 then \<lfloor>r\<rfloor>
      else if r - of_int \<lfloor>r\<rfloor> > 1 / 2 then \<lfloor>r\<rfloor> + 1
      else if even \<lfloor>r\<rfloor> then \<lfloor>r\<rfloor> else \<lfloor>r\<rfloor> + 1)"

definition ulp_exponent :: "real \<Rightarrow> int" where
  "ulp_exponent x = max \<lfloor>log 2 \<bar>x\<bar>\<rfloor> (- 1022) - 52"

definition fl :: "real \<Rightarrow> real" where
  "fl x =
     (if x = 0 then 0
      else of_int (round_even (x / 2 powi ulp_exponent x)) * 2 powi ulp_exponent x)"

text \<open>
  An arithmetic: how the result of \<open>+\<close>, \<open>-\<close>, \<open>*\<close>, \<open>/\<close> is rounded, and the
  function \<open>2 ** y\<close>. The same program text is read in three arithmetics.
  \<^item> \<open>js_doubles\<close>: what the program runs in. Results are rounded by \<open>fl\<close>, and
    \<open>2 ** y\<close> is the correctly rounded power.
  \<^item> \<open>engine pw\<close>: results are rounded by \<open>fl\<close> and \<open>2 ** y\<close> is \<open>pw y\<close>.
    ECMAScript leaves the precision of \<open>**\<close> to the implementation, so the statements
    that do not depend on it are made for every \<open>pw\<close>.
  \<^item> \<open>exact_reals\<close>: no rounding at all. This is the arithmetic of the specification's
    formulas, not that of a run.
\<close>

record arithmetic =
  rnd :: "real \<Rightarrow> real"
  pow2 :: "real \<Rightarrow> real"

definition js_doubles :: arithmetic where
  "js_doubles = \<lparr>rnd = fl, pow2 = (\<lambda>y. fl (2 powr y))\<rparr>"

definition engine :: "(real \<Rightarrow> real) \<Rightarrow> arithmetic" where
  "engine pw = \<lparr>rnd = fl, pow2 = pw\<rparr>"

definition exact_reals :: arithmetic where
  "exact_reals = \<lparr>rnd = (\<lambda>x. x), pow2 = (\<lambda>y. 2 powr y)\<rparr>"

definition plus_in :: "arithmetic \<Rightarrow> real \<Rightarrow> real \<Rightarrow> real" where
  "plus_in A a b = rnd A (a + b)"

definition minus_in :: "arithmetic \<Rightarrow> real \<Rightarrow> real \<Rightarrow> real" where
  "minus_in A a b = rnd A (a - b)"

definition times_in :: "arithmetic \<Rightarrow> real \<Rightarrow> real \<Rightarrow> real" where
  "times_in A a b = rnd A (a * b)"

definition divide_in :: "arithmetic \<Rightarrow> real \<Rightarrow> real \<Rightarrow> real" where
  "divide_in A a b = rnd A (a / b)"

text \<open>
  Properties an arithmetic can have: rounding and \<open>2 ** y\<close> are monotone; and, for a
  power function, that on \<open>y \<le> 0\<close> it stays in \<open>[0, 1]\<close> and is within
  \<open>2^-52\<close> (one unit in the last place of 1) of the true power.
\<close>

definition monotone_rounding :: "arithmetic \<Rightarrow> bool" where
  "monotone_rounding A \<longleftrightarrow> (\<forall>x y. x \<le> y \<longrightarrow> rnd A x \<le> rnd A y)"

definition monotone_pow2 :: "arithmetic \<Rightarrow> bool" where
  "monotone_pow2 A \<longleftrightarrow> (\<forall>x y. x \<le> y \<longrightarrow> pow2 A x \<le> pow2 A y)"

definition accurate_pow2 :: "(real \<Rightarrow> real) \<Rightarrow> bool" where
  "accurate_pow2 pw \<longleftrightarrow>
     (\<forall>y. y \<le> 0 \<longrightarrow> 0 \<le> pw y \<and> pw y \<le> 1 \<and> \<bar>pw y - 2 powr y\<bar> \<le> 2 / 2 ^ 53)"

section \<open>Rank model of the stats card (src/app/api/stats/buildStatsSvg.ts)\<close>

text \<open>
  The numeric fields are JavaScript numbers, here the reals they denote (a double is a
  real \<open>x\<close> with \<open>fl x = x\<close>); the optional field \<open>repos?: number\<close> is an
  \<open>option\<close>. \<open>Infinity\<close> and \<open>NaN\<close> are not values of this model: it follows
  the runs of \<open>calculateRank\<close> in which no operation overflows or divides by zero,
  which are all the runs on non-negative inputs.
\<close>

record RankParams =
  all_commits :: bool
  totalCommits :: real
  prs :: real
  issues :: real
  reviews :: real
  stars :: real
  followers :: real
  repos :: "real option"

record RankResult =
  level :: string
  percentile :: real

text \<open>\<^verbatim>\<open>function exponentialCDF(x) { return 1 - 2 ** -x; }\<close>\<close>

definition exponentialCDF :: "arithmetic \<Rightarrow> real \<Rightarrow> real" where
  "exponentialCDF A x = minus_in A 1 (pow2 A (- x))"

text \<open>\<^verbatim>\<open>function logNormalCDF(x) { return x / (1 + x); }\<close>\<close>

definition logNormalCDF :: "arithmetic \<Rightarrow> real \<Rightarrow> real" where
  "logNormalCDF A x = divide_in A x (plus_in A 1 x)"

definition THRESHOLDS :: "real list" where
  "THRESHOLDS = [1, 12.5, 25, 37.5, 50, 62.5, 75, 87.5, 100]"

definition LEVELS :: "string list" where
  "LEVELS = [''S'', ''A+'', ''A'', ''A-'', ''B+'', ''B'', ''B-'', ''C+'', ''C'']"

text \<open>
  \<open>Array.prototype.findIndex\<close>: the index of the first element satisfying the
  predicate, \<open>-1\<close> when there is none.
\<close>

fun findIndex_from :: "('a \<Rightarrow> bool) \<Rightarrow> 'a list \<Rightarrow> int \<Rightarrow> int" where
  "findIndex_from P [] i = - 1"
| "findIndex_from P (x # xs) i = (if P x then i else findIndex_from P xs (i + 1))"

definition findIndex :: "('a \<Rightarrow> bool) \<Rightarrow> 'a list \<Rightarrow> int" where
  "findIndex P xs = findIndex_from P xs 0"

text \<open>
  Array indexing \<open>xs[i]\<close>: \<open>undefined\<close> (here \<open>None\<close>) outside the
  range, in particular at \<open>-1\<close>.
\<close>

definition at_index :: "'a list \<Rightarrow> int \<Rightarrow> 'a option" where
  "at_index xs i = (if 0 \<le> i \<and> i < int (length xs) then Some (xs ! nat i) else None)"

text \<open>The nullish coalescing operator \<open>a ?? b\<close>.\<close>

definition nullish :: "'a option \<Rightarrow> 'a \<Rightarrow> 'a" where
  "nullish a b = (case a of Some v \<Rightarrow> v | None \<Rightarrow> b)"

text \<open>
  The body of \<open>calculateRank\<close> in an arithmetic \<open>A\<close>. Every operator of the source
  that can round is one application of \<open>plus_in\<close>, \<open>minus_in\<close>, \<open>times_in\<close> or
  \<open>divide_in\<close>; the sum of the six weighted terms associates to the left, as
  \<open>a + b + c + d + e + f\<close> does. The sum of the weights is a sum of small integers,
  which no rounding changes. \<open>rank * 100\<close> is computed in the threshold test and again
  in the result, with the same value.
\<close>

definition rank_in :: "arithmetic \<Rightarrow> RankParams \<Rightarrow> RankResult" where
  "rank_in A params =
    (let COMMITS_MEDIAN = (if all_commits params then 1000 else 250);
         COMMITS_WEIGHT = 2;
         PRS_MEDIAN = 50;
         PRS_WEIGHT = 3;
         ISSUES_MEDIAN = 25;
         ISSUES_WEIGHT = 1;
         REVIEWS_MEDIAN = 2;
         REVIEWS_WEIGHT = 1;
         STARS_MEDIAN = 50;
         STARS_WEIGHT = 4;
         FOLLOWERS_MEDIAN = 10;
         FOLLOWERS_WEIGHT = 1;
         TOTAL_WEIGHT =
           COMMITS_WEIGHT + PRS_WEIGHT + ISSUES_WEIGHT + REVIEWS_WEIGHT + STARS_WEIGHT
             + FOLLOWERS_WEIGHT;
         weightedScore =
           plus_in A
            (plus_in A
              (plus_in A
                (plus_in A
                  (plus_in A
                    (times_in A COMMITS_WEIGHT
                       (exponentialCDF A (divide_in A (totalCommits params) COMMITS_MEDIAN)))
                    (times_in A PRS_WEIGHT
                       (exponentialCDF A (divide_in A (prs params) PRS_MEDIAN))))
                  (times_in A ISSUES_WEIGHT
                     (exponentialCDF A (divide_in A (issues params) ISSUES_MEDIAN))))
                (times_in A REVIEWS_WEIGHT
                   (exponentialCDF A (divide_in A (reviews params) REVIEWS_MEDIAN))))
              (times_in A STARS_WEIGHT
                 (logNormalCDF A (divide_in A (stars params) STARS_MEDIAN))))
            (times_in A FOLLOWERS_WEIGHT
               (logNormalCDF A (divide_in A (followers params) FOLLOWERS_MEDIAN)));
         rank = minus_in A 1 (divide_in A weightedScore TOTAL_WEIGHT);
         levelIndex = findIndex (\<lambda>t. times_in A rank 100 \<le> t) THRESHOLDS;
         level = nullish (at_index LEVELS levelIndex) (LEVELS ! (length LEVELS - 1))
     in \<lparr>level = level, percentile = times_in A rank 100\<rparr>)"

text \<open>The function the program runs: the body in double precision.\<close>

definition calculateRank :: "RankParams \<Rightarrow> RankResult" where
  "calculateRank = rank_in js_doubles"

text \<open>The inputs the rank claims range over: every numeric field is non-negative.\<close>

definition nonneg_inputs :: "RankParams \<Rightarrow> bool" where
  "nonneg_inputs p \<longleftrightarrow>
     0 \<le> totalCommits p \<and> 0 \<le> prs p \<and> 0 \<le> issues p \<and> 0 \<le> reviews p \<and>
     0 \<le> stars p \<and> 0 \<le> followers p"

text \<open>
  The last two statements of \<open>calculateRank\<close> (the threshold scan and the label
  lookup with its fallback) as a function of the percentile alone.
\<close>

definition level_for :: "real \<Rightarrow> string" where
  "level_for pct =
     nullish (at_index LEVELS (findIndex (\<lambda>t. pct \<le> t) THRESHOLDS)) (LEVELS ! (length LEVELS - 1))"

text \<open>
  The position of a label in the ordered list \<open>LEVELS\<close>: 0 for \<open>S\<close> (the best) up
  to 8 for \<open>C\<close> (the lowest); a smaller index is a better grade.
\<close>

definition quality_index :: "string \<Rightarrow> int" where
  "quality_index l = findIndex (\<lambda>x. x = l) LEVELS"

text \<open>
  The six weighted terms of \<open>weightedScore\<close> in the order they are added, and the
  percentile as a function of them: the same expressions as in \<open>rank_in\<close>
  (lemma \<open>percentile_rank_in\<close>).
\<close>

definition weighted_terms :: "arithmetic \<Rightarrow> RankParams \<Rightarrow> real list" where
  "weighted_terms A p =
     [times_in A 2 (exponentialCDF A (divide_in A (totalCommits p) (if all_commits p then 1000 else 250))),
      times_in A 3 (exponentialCDF A (divide_in A (prs p) 50)),
      times_in A 1 (exponentialCDF A (divide_in A (issues p) 25)),
      times_in A 1 (exponentialCDF A (divide_in A (reviews p) 2)),
      times_in A 4 (logNormalCDF A (divide_in A (stars p) 50)),
      times_in A 1 (logNormalCDF A (divide_in A (followers p) 10))]"

definition percentile_of_terms :: "arithmetic \<Rightarrow> real list \<Rightarrow> real" where
  "percentile_of_terms A ts =
     times_in A (minus_in A 1 (divide_in A (foldl (plus_in A) (hd ts) (tl ts)) 12)) 100"

text \<open>
  \<open>raises_count_input p q\<close>: \<open>q\<close> is \<open>p\<close> with exactly one of \<open>totalCommits\<close>,
  \<open>prs\<close>, \<open>issues\<close>, \<open>reviews\<close> raised (or left as it is) and every other field
  unchanged. \<open>raises_one_input p q\<close>: the same for any one of the six numeric inputs,
  \<open>stars\<close> and \<open>followers\<close> included.
\<close>

definition raises_count_input :: "RankParams \<Rightarrow> RankParams \<Rightarrow> bool" where
  "raises_count_input p q \<longleftrightarrow>
     (totalCommits p \<le> totalCommits q \<and> q = p\<lparr>totalCommits := totalCommits q\<rparr>) \<or>
     (prs p \<le> prs q \<and> q = p\<lparr>prs := prs q\<rparr>) \<or>
     (issues p \<le> issues q \<and> q = p\<lparr>issues := issues q\<rparr>) \<or>
     (reviews p \<le> reviews q \<and> q = p\<lparr>reviews := reviews q\<rparr>)"

definition raises_one_input :: "RankParams \<Rightarrow> RankParams \<Rightarrow> bool" where
  "raises_one_input p q \<longleftrightarrow>
     raises_count_input p q \<or>
     (stars p \<le> stars q \<and> q = p\<lparr>stars := stars q\<rparr>) \<or>
     (followers p \<le> followers q \<and> q = p\<lparr>followers := followers q\<rparr>)"

subsection \<open>The reference definition of the rank, following the specification's wording\<close>

text \<open>
  The exponential transform \<open>f(x) = 1 - 2^(-x/median)\<close>, the transform
  \<open>g(x) = x / (median + x)\<close>, the weight-normalised score, the percentile
  \<open>(1 - score) * 100\<close> and the first-threshold rule with its fallback to \<open>C\<close>.
\<close>

definition spec_f :: "real \<Rightarrow> real \<Rightarrow> real" where
  "spec_f median x = 1 - 2 powr (- x / median)"

definition spec_g :: "real \<Rightarrow> real \<Rightarrow> real" where
  "spec_g median x = x / (median + x)"

definition spec_score :: "RankParams \<Rightarrow> real" where
  "spec_score p =
     (2 * spec_f (if all_commits p then 1000 else 250) (totalCommits p) +
      3 * spec_f 50 (prs p) +
      1 * spec_f 25 (issues p) +
      1 * spec_f 2 (reviews p) +
      4 * spec_g 50 (stars p) +
      1 * spec_g 10 (followers p)) / (2 + 3 + 1 + 1 + 4 + 1)"

definition spec_percentile :: "RankParams \<Rightarrow> real" where
  "spec_percentile p = (1 - spec_score p) * 100"

definition spec_level :: "real \<Rightarrow> string" where
  "spec_level pct =
     (case find (\<lambda>(t, l). pct \<le> t)
             (zip [1, 12.5, 25, 37.5, 50, 62.5, 75, 87.5, 100]
                  [''S'', ''A+'', ''A'', ''A-'', ''B+'', ''B'', ''B-'', ''C+'', ''C'']) of
        Some (t, l) \<Rightarrow> l
      | None \<Rightarrow> ''C'')"

section \<open>Streak model of the streak card (buildStreakSvg)\<close>

text \<open>
  A contribution day as the calendar query returns it. The count is GitHub's
  \<open>contributionCount\<close>, a non-negative integer, so \<open>> 0\<close> and \<open>nonzero\<close>
  coincide.
\<close>

record ContributionDay =
  date :: string
  contributionCount :: nat

record Streaks =
  currentStreak :: nat
  longestStreak :: nat

text \<open>
  The first loop of \<open>computeStreaks\<close>:
  \<^verbatim>\<open>for (let i = 0; i < days.length; i++) {
    if (days[i].contributionCount > 0) { temp++; if (temp > longest) longest = temp; }
    else { temp = 0; } }\<close>
\<close>

function longest_loop :: "ContributionDay list \<Rightarrow> nat \<Rightarrow> nat \<Rightarrow> nat \<Rightarrow> nat" where
  "longest_loop days i temp longest =
     (if i < length days then
        (if contributionCount (days ! i) > 0 then
           longest_loop days (i + 1) (temp + 1) (if temp + 1 > longest then temp + 1 else longest)
         else longest_loop days (i + 1) 0 longest)
      else longest)"
  by pat_completeness auto
termination
  by (relation "measure (\<lambda>(days, i, temp, longest). length days - i)") auto

text \<open>
  The second loop, scanning backward from the last index; the index is an \<open>int\<close>
  because it starts at \<open>days.length - 1\<close>, which is \<open>-1\<close> for the empty array:
  \<^verbatim>\<open>for (let i = days.length - 1; i >= 0; i--) {
    if (days[i].contributionCount > 0) current++; else break; }\<close>
\<close>

function current_loop :: "ContributionDay list \<Rightarrow> int \<Rightarrow> nat \<Rightarrow> nat" where
  "current_loop days i current =
     (if i \<ge> 0 then
        (if contributionCount (days ! nat i) > 0 then current_loop days (i - 1) (current + 1)
         else current)
      else current)"
  by pat_completeness auto
termination
  by (relation "measure (\<lambda>(days, i, current). nat (i + 1))") auto

definition computeStreaks :: "ContributionDay list \<Rightarrow> Streaks" where
  "computeStreaks days =
     \<lparr>currentStreak = current_loop days (int (length days) - 1) 0,
      longestStreak = longest_loop days 0 0 0\<rparr>"

text \<open>
  The index pair of the longest streak, computed in \<open>buildStreakSvg\<close> for the range
  display; \<open>bestStart\<close> and \<open>bestEnd\<close> start at \<open>-1\<close>:
  \<^verbatim>\<open>if (days[i].contributionCount > 0) {
    if (tempLen === 0) tempStart = i;
    tempLen++;
    if (tempLen > bestEnd - bestStart + 1) { bestStart = tempStart; bestEnd = i; }
  } else { tempLen = 0; }\<close>
\<close>

function best_loop ::
  "ContributionDay list \<Rightarrow> nat \<Rightarrow> nat \<Rightarrow> nat \<Rightarrow> int \<Rightarrow> int \<Rightarrow> int \<times> int" where
  "best_loop days i tempStart tempLen bestStart bestEnd =
     (if i < length days then
        (if contributionCount (days ! i) > 0 then
           (if int (tempLen + 1) > bestEnd - bestStart + 1 then
              best_loop days (i + 1) (if tempLen = 0 then i else tempStart) (tempLen + 1)
                (int (if tempLen = 0 then i else tempStart)) (int i)
            else
              best_loop days (i + 1) (if tempLen = 0 then i else tempStart) (tempLen + 1)
                bestStart bestEnd)
         else best_loop days (i + 1) tempStart 0 bestStart bestEnd)
      else (bestStart, bestEnd))"
  by pat_completeness auto
termination
  by (relation "measure (\<lambda>(days, i, tempStart, tempLen, bestStart, bestEnd). length days - i)") auto

definition longest_range :: "ContributionDay list \<Rightarrow> int \<times> int" where
  "longest_range days = best_loop days 0 0 0 (- 1) (- 1)"

subsection \<open>Runs of active days\<close>

text \<open>
  \<open>active_run days m s n\<close>: the \<open>n\<close> consecutive days starting at index \<open>s\<close>
  lie within the first \<open>m\<close> days and all have a count above zero.
  \<open>max_active_run days m L\<close>: \<open>L\<close> is the greatest length of such a run.
  \<open>trail days m t\<close>: exactly the last \<open>t\<close> of the first \<open>m\<close> days form a run.
  \<open>first_run days m s L\<close>: \<open>L\<close> is the greatest run length and \<open>s\<close> is the
  least index at which a run of that length starts.
\<close>

definition active_run :: "ContributionDay list \<Rightarrow> nat \<Rightarrow> nat \<Rightarrow> nat \<Rightarrow> bool" where
  "active_run days m s n \<longleftrightarrow> s + n \<le> m \<and> (\<forall>k<n. contributionCount (days ! (s + k)) > 0)"

definition max_active_run :: "ContributionDay list \<Rightarrow> nat \<Rightarrow> nat \<Rightarrow> bool" where
  "max_active_run days m L \<longleftrightarrow> (\<exists>s. active_run days m s L) \<and> (\<forall>s n. active_run days m s n \<longrightarrow> n \<le> L)"

definition trail :: "ContributionDay list \<Rightarrow> nat \<Rightarrow> nat \<Rightarrow> bool" where
  "trail days m t \<longleftrightarrow> active_run days m (m - t) t \<and> (t < m \<longrightarrow> contributionCount (days ! (m - t - 1)) = 0)"

definition first_run :: "ContributionDay list \<Rightarrow> nat \<Rightarrow> nat \<Rightarrow> nat \<Rightarrow> bool" where
  "first_run days m s L \<longleftrightarrow>
     max_active_run days m L \<and> active_run days m s L \<and> (\<forall>s'. active_run days m s' L \<longrightarrow> s \<le> s')"

text \<open>
  The invariant of the index-pair loop after \<open>m\<close> days: either the pair is still
  \<open>(-1, -1)\<close> and no run so far is longer than one day, or it holds the first run
  of greatest length, which then has at least two days.
\<close>

definition best_inv :: "ContributionDay list \<Rightarrow> nat \<Rightarrow> int \<Rightarrow> int \<Rightarrow> bool" where
  "best_inv days m bs be \<longleftrightarrow>
     (bs = - 1 \<and> be = - 1 \<and> (max_active_run days m 0 \<or> max_active_run days m 1)) \<or>
     (0 \<le> bs \<and> bs < be \<and> be < int m \<and> first_run days m (nat bs) (nat (be - bs + 1)))"

text \<open>The days of the example sequence \<open>[1,0,2,3,0,0,1]\<close>, oldest first.\<close>

definition scenario_B :: "ContributionDay list" where
  "scenario_B =
     [\<lparr>date = ''2024-03-01'', contributionCount = 1\<rparr>,
      \<lparr>date = ''2024-03-02'', contributionCount = 0\<rparr>,
      \<lparr>date = ''2024-03-03'', contributionCount = 2\<rparr>,
      \<lparr>date = ''2024-03-04'', contributionCount = 3\<rparr>,
      \<lparr>date = ''2024-03-05'', contributionCount = 0\<rparr>,
      \<lparr>date = ''2024-03-06'', contributionCount = 0\<rparr>,
      \<lparr>date = ''2024-03-07'', contributionCount = 1\<rparr>]"

section \<open>Language aggregator of the top-languages card (fetchTopLanguages)\<close>

text \<open>
  Observable effects of a pipeline, in the order they happen: a request sent to the
  GitHub API, a line written with \<open>console.error\<close>, a line written with
  \<open>console.log\<close>.
\<close>

datatype Effect = NetworkCall string | ConsoleError string | ConsoleLog string

text \<open>
  The sizes and percentages of the aggregator are JavaScript numbers that can be
  \<open>NaN\<close> or infinite, so they are not plain reals here: a finite double, the two
  infinities, or \<open>NaN\<close>. \<open>js_round x\<close> is the double an operation returns
  whose exact result is \<open>x\<close>: \<open>x\<close> rounded to the nearest double, an infinity
  when that leaves the finite range. The operators follow IEEE 754: \<open>0 / 0\<close> is
  \<open>NaN\<close>, a positive number over \<open>0\<close> is \<open>Infinity\<close>, \<open>NaN\<close> absorbs.
  A zero is \<open>+0\<close>: the divisor of the aggregator is a sum of non-negative numbers
  that starts from \<open>0\<close>.
\<close>

datatype jsnum = Number real | Infinity | NegInfinity | NaN

definition js_round :: "real \<Rightarrow> jsnum" where
  "js_round x =
     (if 2 ^ 1024 \<le> fl x then Infinity
      else if fl x \<le> - (2 ^ 1024) then NegInfinity
      else Number (fl x))"

fun js_plus :: "jsnum \<Rightarrow> jsnum \<Rightarrow> jsnum" where
  "js_plus (Number a) (Number b) = js_round (a + b)"
| "js_plus NaN _ = NaN"
| "js_plus _ NaN = NaN"
| "js_plus Infinity NegInfinity = NaN"
| "js_plus NegInfinity Infinity = NaN"
| "js_plus Infinity _ = Infinity"
| "js_plus NegInfinity _ = NegInfinity"
| "js_plus (Number a) Infinity = Infinity"
| "js_plus (Number a) NegInfinity = NegInfinity"

fun js_minus :: "jsnum \<Rightarrow> jsnum \<Rightarrow> jsnum" where
  "js_minus (Number a) (Number b) = js_round (a - b)"
| "js_minus NaN _ = NaN"
| "js_minus _ NaN = NaN"
| "js_minus Infinity Infinity = NaN"
| "js_minus NegInfinity NegInfinity = NaN"
| "js_minus Infinity _ = Infinity"
| "js_minus NegInfinity _ = NegInfinity"
| "js_minus (Number a) Infinity = NegInfinity"
| "js_minus (Number a) NegInfinity = Infinity"

fun js_div :: "jsnum \<Rightarrow> jsnum \<Rightarrow> jsnum" where
  "js_div (Number a) (Number b) =
     (if b = 0 then (if a = 0 then NaN else if 0 < a then Infinity else NegInfinity)
      else js_round (a / b))"
| "js_div NaN _ = NaN"
| "js_div _ NaN = NaN"
| "js_div (Number a) _ = Number 0"
| "js_div Infinity (Number b) = (if 0 \<le> b then Infinity else NegInfinity)"
| "js_div NegInfinity (Number b) = (if 0 \<le> b then NegInfinity else Infinity)"
| "js_div _ _ = NaN"

fun js_times :: "jsnum \<Rightarrow> real \<Rightarrow> jsnum" where
  "js_times (Number x) k = js_round (x * k)"
| "js_times Infinity k = (if k > 0 then Infinity else if k < 0 then NegInfinity else NaN)"
| "js_times NegInfinity k = (if k > 0 then NegInfinity else if k < 0 then Infinity else NaN)"
| "js_times NaN k = NaN"

text \<open>
  \<open>Array.prototype.sort\<close> with a comparator is stable, and a comparator result that
  is \<open>NaN\<close> counts as \<open>0\<close>: \<open>x\<close> moves behind \<open>y\<close> only when
  \<open>compare(x, y) > 0\<close>. For a consistent comparator every stable sort gives the same
  array; it is written here as an insertion sort.
\<close>

fun js_positive :: "jsnum \<Rightarrow> bool" where
  "js_positive (Number x) = (x > 0)"
| "js_positive Infinity = True"
| "js_positive NegInfinity = False"
| "js_positive NaN = False"

fun insort_cmp :: "('a \<Rightarrow> 'a \<Rightarrow> jsnum) \<Rightarrow> 'a \<Rightarrow> 'a list \<Rightarrow> 'a list" where
  "insort_cmp c x [] = [x]"
| "insort_cmp c x (y # ys) = (if js_positive (c x y) then y # insort_cmp c x ys else x # y # ys)"

definition sort_cmp :: "('a \<Rightarrow> 'a \<Rightarrow> jsnum) \<Rightarrow> 'a list \<Rightarrow> 'a list" where
  "sort_cmp c xs = foldr (insort_cmp c) xs []"

text \<open>
  The GraphQL answer, with the optional chains of the source collapsed to one
  \<open>option\<close> each: \<open>res.user?.repositories?.nodes\<close>,
  \<open>repo.languages?.edges\<close>, \<open>edge.size\<close> (read with \<open>?? 0\<close>),
  \<open>node.color\<close> and \<open>pageInfo?.hasNextPage\<close>. An answer carries every field
  the query asks for, so \<open>None\<close> for \<open>edge.size\<close> is the value \<open>null\<close>; a
  size is the non-negative integer written in the answer.
\<close>

record LanguageNode =
  name :: string
  color :: "string option"

record LanguageEdge =
  edge_size :: "nat option"
  node :: LanguageNode

record Repo =
  languages :: "LanguageEdge list option"

record TopLanguagesResponse =
  nodes :: "Repo list option"
  hasNextPage :: "bool option"

text \<open>
  \<open>totals: Record<string, {size, color}>\<close> is the list of the object's own
  properties in the order they were created. The field \<open>size\<close> is written
  \<open>size'\<close>, and the fields \<open>name\<close> and \<open>color\<close> of a returned entry
  \<open>share_name\<close> and \<open>share_color\<close>.
\<close>

record LangTotal =
  size' :: jsnum
  total_color :: string

record LanguageShare =
  share_name :: string
  share_color :: string
  percent :: jsnum

type_synonym Totals = "(string \<times> LangTotal) list"

text \<open>
  \<open>totals\<close> is created as \<open>{}\<close>, so it inherits from \<open>Object.prototype\<close>. For
  a name that is a member of \<open>Object.prototype\<close> the lookup \<open>totals[name]\<close>
  returns the inherited member, which is truthy: no entry is created, and
  \<open>totals[name].size += size\<close> writes a property of that member, not of
  \<open>totals\<close>. Nothing the function reads later is changed by that write.
\<close>

definition OBJECT_PROTOTYPE_MEMBERS :: "string list" where
  "OBJECT_PROTOTYPE_MEMBERS =
     [''constructor'', ''__defineGetter__'', ''__defineSetter__'', ''hasOwnProperty'',
      ''__lookupGetter__'', ''__lookupSetter__'', ''isPrototypeOf'', ''propertyIsEnumerable'',
      ''toString'', ''valueOf'', ''__proto__'', ''toLocaleString'']"

text \<open>
  \<open>Object.entries\<close> and \<open>Object.values\<close> enumerate the keys that are array
  indices first (canonical decimal numerals below \<open>2^32 - 1\<close>), in ascending
  numeric order, and then the other string keys in the order of their creation.
\<close>

definition index_value :: "string \<Rightarrow> nat" where
  "index_value s = foldl (\<lambda>n c. 10 * n + (of_char c - 48)) 0 s"

definition is_array_index :: "string \<Rightarrow> bool" where
  "is_array_index s \<longleftrightarrow>
     s \<noteq> [] \<and> list_all (\<lambda>c. c \<in> set ''0123456789'') s \<and> (s = ''0'' \<or> hd s \<noteq> CHR ''0'') \<and>
     length s \<le> 10 \<and> index_value s < 4294967295"

definition object_entries :: "(string \<times> 'a) list \<Rightarrow> (string \<times> 'a) list" where
  "object_entries kvs =
     sort_key (\<lambda>kv. index_value (fst kv)) (filter (\<lambda>kv. is_array_index (fst kv)) kvs)
       @ filter (\<lambda>kv. \<not> is_array_index (fst kv)) kvs"

text \<open>
  One iteration of the inner loop:
  \<^verbatim>\<open>const { name, color } = edge.node;
  const size = edge.size ?? 0;
  if (!totals[name]) totals[name] = { size: 0, color: color || "#9e9e9e" };
  totals[name].size += size;\<close>
  The size read from the answer is the double nearest to the integer written there.
\<close>

fun add_size :: "string \<Rightarrow> jsnum \<Rightarrow> Totals \<Rightarrow> Totals" where
  "add_size n s [] = []"
| "add_size n s ((k, v) # kvs) =
     (if k = n then (k, v\<lparr>size' := js_plus (size' v) s\<rparr>) # kvs else (k, v) # add_size n s kvs)"

definition add_edge :: "Totals \<Rightarrow> LanguageEdge \<Rightarrow> Totals" where
  "add_edge totals edge =
     (let name = name (node edge);
          color = color (node edge);
          size = (case edge_size edge of Some s \<Rightarrow> js_round (real s) | None \<Rightarrow> Number 0)
      in if name \<in> set OBJECT_PROTOTYPE_MEMBERS then totals
         else
           (let totals1 = (if map_of totals name = None
                     then totals @ [(name, \<lparr>size' = Number 0,
                            total_color =
                              (case color of
                                 None \<Rightarrow> ''#9e9e9e''
                               | Some c \<Rightarrow> if c = '''' then ''#9e9e9e'' else c)\<rparr>)]
                     else totals)
            in add_size name size totals1))"

definition add_repo :: "Totals \<Rightarrow> Repo \<Rightarrow> Totals" where
  "add_repo totals repo = foldl add_edge totals (nullish (languages repo) [])"

definition add_page :: "Totals \<Rightarrow> TopLanguagesResponse \<Rightarrow> Totals" where
  "add_page totals res = foldl add_repo totals (nullish (nodes res) [])"

text \<open>
  The pagination loop. The network is the list of answers the successive
  \<open>octokit.graphql\<close> calls receive (\<open>Inl\<close>: the call throws). The loop
  stops after the first answer without \<open>hasNextPage\<close>; when the answers run out
  while a next page is announced the function does not return (\<open>None\<close>).
\<close>

fun fetch_loop ::
  "Totals \<Rightarrow> (string + TopLanguagesResponse) list \<Rightarrow> (string + Totals) option \<times> Effect list" where
  "fetch_loop totals [] = (None, [NetworkCall ''graphql''])"
| "fetch_loop totals (Inl err # rest) = (Some (Inl err), [NetworkCall ''graphql''])"
| "fetch_loop totals (Inr res # rest) =
     (if hasNextPage res = Some True then
        (case fetch_loop (add_page totals res) rest of
           (r, fx) \<Rightarrow> (r, NetworkCall ''graphql'' # fx))
      else (Some (Inr (add_page totals res)), [NetworkCall ''graphql'']))"

text \<open>
  The computation after the loop:
  \<^verbatim>\<open>const totalSize = Object.values(totals).reduce((a, v) => a + v.size, 0);
  return Object.entries(totals)
    .map(([name, { size, color }]) => ({ name, color, percent: (size / totalSize) * 100 }))
    .sort((a, b) => b.percent - a.percent)
    .slice(0, 6);\<close>
  The percentage is rounded twice, after the division and after the multiplication.
\<close>

definition language_shares :: "Totals \<Rightarrow> LanguageShare list" where
  "language_shares totals =
     (let totalSize = foldl (\<lambda>a v. js_plus a (size' v)) (Number 0) (map snd (object_entries totals))
      in take 6
           (sort_cmp (\<lambda>a b. js_minus (percent b) (percent a))
              (map (\<lambda>(name, t).
                      \<lparr>share_name = name, share_color = total_color t,
                       percent = js_times (js_div (size' t) totalSize) 100\<rparr>)
                 (object_entries totals))))"

definition fetchTopLanguages ::
  "(string + TopLanguagesResponse) list \<Rightarrow> (string + LanguageShare list) option \<times> Effect list" where
  "fetchTopLanguages answers =
     (case fetch_loop [] answers of
        (Some (Inr totals), fx) \<Rightarrow> (Some (Inr (language_shares totals)), fx)
      | (Some (Inl err), fx) \<Rightarrow> (Some (Inl err), fx)
      | (None, fx) \<Rightarrow> (None, fx))"

subsection \<open>What the aggregator is measured against\<close>

text \<open>
  All language edges of the fetched pages in the order the loops visit them, the bytes
  of one edge, the bytes of all edges, and the bytes of the edges with a given name.
  \<open>recorded es\<close> are the edges that get an entry in \<open>totals\<close>: those whose name is
  not a member of \<open>Object.prototype\<close>. \<open>language_bytes\<close>, \<open>language_names\<close> and
  \<open>recorded_bytes\<close> are the bytes of one language, the names of the languages and the
  bytes of all languages over the recorded edges of the pages.
  \<open>complete pages\<close>: the pages are exactly those one run of the loop consumes.
\<close>

definition edges_of :: "TopLanguagesResponse list \<Rightarrow> LanguageEdge list" where
  "edges_of pages =
     concat (map (\<lambda>repo. nullish (languages repo) [])
       (concat (map (\<lambda>res. nullish (nodes res) []) pages)))"

definition edge_bytes :: "LanguageEdge \<Rightarrow> nat" where
  "edge_bytes e = nullish (edge_size e) 0"

definition bytes_named :: "LanguageEdge list \<Rightarrow> string \<Rightarrow> nat" where
  "bytes_named es n = sum_list (map edge_bytes (filter (\<lambda>e. name (node e) = n) es))"

definition total_bytes :: "TopLanguagesResponse list \<Rightarrow> nat" where
  "total_bytes pages = sum_list (map edge_bytes (edges_of pages))"

definition recorded :: "LanguageEdge list \<Rightarrow> LanguageEdge list" where
  "recorded es = filter (\<lambda>e. name (node e) \<notin> set OBJECT_PROTOTYPE_MEMBERS) es"

definition language_bytes :: "TopLanguagesResponse list \<Rightarrow> string \<Rightarrow> nat" where
  "language_bytes pages n = bytes_named (recorded (edges_of pages)) n"

definition language_names :: "TopLanguagesResponse list \<Rightarrow> string set" where
  "language_names pages = set (map (\<lambda>e. name (node e)) (recorded (edges_of pages)))"

definition recorded_bytes :: "TopLanguagesResponse list \<Rightarrow> nat" where
  "recorded_bytes pages = sum_list (map edge_bytes (recorded (edges_of pages)))"

definition complete :: "TopLanguagesResponse list \<Rightarrow> bool" where
  "complete pages \<longleftrightarrow>
     pages \<noteq> [] \<and> (\<forall>p\<in>set (butlast pages). hasNextPage p = Some True) \<and>
     hasNextPage (last pages) \<noteq> Some True"

fun percent_value :: "jsnum \<Rightarrow> real" where
  "percent_value (Number x) = x"
| "percent_value _ = 0"

text \<open>
  The double \<open>(part / whole) * 100\<close> evaluates to: the quotient rounded, times 100,
  rounded again.
\<close>

definition double_percent :: "nat \<Rightarrow> nat \<Rightarrow> real" where
  "double_percent part whole = fl (fl (real part / real whole) * 100)"

text \<open>
  \<open>percent.toFixed(2)\<close>, as the number of hundredths it prints: the integer nearest
  to \<open>100 * x\<close> for the exact value \<open>x\<close> of the double, the larger one at a tie.
\<close>

definition toFixed2 :: "real \<Rightarrow> int" where
  "toFixed2 x = round (x * 100)"

text \<open>
  A percentage in range: a double between 0 and 100. The size recorded for a name, the
  integer a recorded size stands for, and their sum.
\<close>

definition is_percent :: "jsnum \<Rightarrow> bool" where
  "is_percent x \<longleftrightarrow> (\<exists>r. x = Number (fl r) \<and> 0 \<le> fl r \<and> fl r \<le> 100)"

definition recorded_size :: "Totals \<Rightarrow> string \<Rightarrow> jsnum" where
  "recorded_size t n = (case map_of t n of None \<Rightarrow> Number 0 | Some v \<Rightarrow> size' v)"

fun bytes_of :: "jsnum \<Rightarrow> nat" where
  "bytes_of (Number x) = nat \<lfloor>x\<rfloor>"
| "bytes_of _ = 0"

definition sum_sizes :: "Totals \<Rightarrow> nat" where
  "sum_sizes t = sum_list (map (\<lambda>kv. bytes_of (size' (snd kv))) t)"

text \<open>
  The totals \<open>t\<close> hold exactly the edges \<open>es\<close>: one entry per language name, each
  with the bytes of that language, without rounding.
\<close>

definition represents :: "Totals \<Rightarrow> LanguageEdge list \<Rightarrow> bool" where
  "represents t es \<longleftrightarrow>
     distinct (map fst t) \<and>
     set (map fst t) = set (map (\<lambda>e. name (node e)) es) \<and>
     (\<forall>k. recorded_size t k = Number (real (bytes_named es k))) \<and>
     sum_sizes t = sum_list (map edge_bytes es)"

text \<open>
  Scenario A: one page with two repositories, \<open>{JS: 800}\<close> and
  \<open>{JS: 200, Python: 400}\<close>. The degenerate page: one repository whose only
  language edge has size 0. The page with sizes 9 and 2: one repository with two
  languages.
\<close>

definition scenario_A :: "TopLanguagesResponse list" where
  "scenario_A =
     [\<lparr>nodes = Some
         [\<lparr>languages = Some
             [\<lparr>edge_size = Some 800, node = \<lparr>name = ''JavaScript'', color = Some ''#f1e05a''\<rparr>\<rparr>]\<rparr>,
          \<lparr>languages = Some
             [\<lparr>edge_size = Some 200, node = \<lparr>name = ''JavaScript'', color = Some ''#f1e05a''\<rparr>\<rparr>,
              \<lparr>edge_size = Some 400, node = \<lparr>name = ''Python'', color = Some ''#3572A5''\<rparr>\<rparr>]\<rparr>],
       hasNextPage = Some False\<rparr>]"

definition zero_size_page :: "TopLanguagesResponse list" where
  "zero_size_page =
     [\<lparr>nodes = Some
         [\<lparr>languages = Some
             [\<lparr>edge_size = Some 0, node = \<lparr>name = ''Markdown'', color = None\<rparr>\<rparr>]\<rparr>],
       hasNextPage = Some False\<rparr>]"

definition sizes_9_and_2 :: "TopLanguagesResponse list" where
  "sizes_9_and_2 =
     [\<lparr>nodes = Some
         [\<lparr>languages = Some
             [\<lparr>edge_size = Some 9, node = \<lparr>name = ''TypeScript'', color = Some ''#3178c6''\<rparr>\<rparr>,
              \<lparr>edge_size = Some 2, node = \<lparr>name = ''CSS'', color = Some ''#563d7c''\<rparr>\<rparr>]\<rparr>],
       hasNextPage = Some False\<rparr>]"

section \<open>The three card pipelines\<close>

text \<open>
  The process configuration: \<open>process.env.GITHUB_USERNAME\<close> and
  \<open>process.env.GITHUB_TOKEN\<close>, each a string or absent. \<open>!v\<close> holds for an
  absent value and for the empty string. The theme argument of the builders only selects
  colours and is left out; a response is represented by the values interpolated into its
  SVG text, an error response by the text of its message element.
\<close>

record Env =
  GITHUB_USERNAME :: "string option"
  GITHUB_TOKEN :: "string option"

definition falsy :: "string option \<Rightarrow> bool" where
  "falsy v \<longleftrightarrow> v = None \<or> v = Some ''''"

subsection \<open>Stats card (src/app/api/stats/buildStatsSvg.ts)\<close>

record RepoAggregate =
  totalStars :: nat
  totalForks :: nat
  repoCount :: nat
  activeReposLastYear :: nat
  totalPRs :: nat
  totalIssues :: nat

record SearchData =
  total_count :: "nat option"

record SearchResponse =
  data :: "SearchData option"

text \<open>
  The collaborators of the stats pipeline, each as the outcome of awaiting it for a
  login: \<open>Inl\<close> is the message of the error it throws. \<open>search_commits\<close> is
  the call \<open>octokit.request("GET /search/commits", {q: `author:${login}`, ...})\<close>;
  the three others are the functions of the same names, whose pagination loops no claim
  depends on.
\<close>

record StatsWorld =
  fetchAllRepos :: "string \<Rightarrow> string + RepoAggregate"
  search_commits :: "string \<Rightarrow> string + SearchResponse"
  fetchTotalReviewsAllTime :: "string \<Rightarrow> string + nat"
  fetchFollowersCount :: "string \<Rightarrow> string + nat"

text \<open>
  \<^verbatim>\<open>if (!login) return 0;
  try { const response = await octokit.request(...);
        const totalCount = response.data?.total_count ?? 0;
        return totalCount;
  } catch (err) { console.error("fetchTotalCommitsAllTime error:", ...); return 0; }\<close>
  The result is a sum so that an error leaving the function would be a value
  \<open>Inl\<close>.
\<close>

definition fetchTotalCommitsAllTime ::
  "(string \<Rightarrow> string + SearchResponse) \<Rightarrow> string \<Rightarrow> (string + nat) \<times> Effect list" where
  "fetchTotalCommitsAllTime request login =
     (if login = '''' then (Inr 0, [])
      else
        (case request login of
           Inr response \<Rightarrow>
             (Inr (nullish (case data response of None \<Rightarrow> None | Some d \<Rightarrow> total_count d) 0),
              [NetworkCall ''GET /search/commits''])
         | Inl err \<Rightarrow>
             (Inr 0,
              [NetworkCall ''GET /search/commits'',
               ConsoleError (''fetchTotalCommitsAllTime error: '' @ err)])))"

record StatsCard =
  card_username :: string
  card_rank :: RankResult
  card_totalStars :: nat
  card_totalForks :: nat
  card_totalCommits :: nat
  card_totalPRs :: nat
  card_totalIssues :: nat
  card_activeReposLastYear :: nat

record StreakCard =
  streak_totalContributions :: nat
  streak_totalRange :: "string option"
  streak_currentStreak :: nat
  streak_currRange :: "(string \<times> string) option"
  streak_longestStreak :: nat
  streak_longestRange :: "(string \<times> string) option"

datatype Response =
  StatsSvg StatsCard
| StreakSvg StreakCard
| TopLangSvg "LanguageShare list"
| ErrorSvg string

text \<open>The \<open>try\<close> block of \<open>buildStatsSvg\<close>; \<open>Inl\<close> is the thrown message.\<close>

definition stats_try :: "Env \<Rightarrow> StatsWorld \<Rightarrow> (string + StatsCard) \<times> Effect list" where
  "stats_try env w =
     (case GITHUB_USERNAME env of
        None \<Rightarrow> (Inl ''Add github username in env.GITHUB_USERNAME'', [])
      | Some username \<Rightarrow>
          if username = '''' then (Inl ''Add github username in env.GITHUB_USERNAME'', [])
          else if falsy (GITHUB_TOKEN env) then (Inl ''Add github token in env.GITHUB_TOKEN'', [])
          else
            (case fetchAllRepos w username of
               Inl err \<Rightarrow> (Inl err, [NetworkCall ''fetchAllRepos''])
             | Inr r \<Rightarrow>
                 (case fetchTotalCommitsAllTime (search_commits w) username of
                    (Inl err, fx) \<Rightarrow> (Inl err, NetworkCall ''fetchAllRepos'' # fx)
                  | (Inr commits, fx) \<Rightarrow>
                      (case fetchTotalReviewsAllTime w username of
                         Inl err \<Rightarrow>
                           (Inl err,
                            NetworkCall ''fetchAllRepos'' # fx
                              @ [NetworkCall ''fetchTotalReviewsAllTime''])
                       | Inr totalReviews \<Rightarrow>
                           (case fetchFollowersCount w username of
                              Inl err \<Rightarrow>
                                (Inl err,
                                 NetworkCall ''fetchAllRepos'' # fx
                                   @ [NetworkCall ''fetchTotalReviewsAllTime'',
                                      NetworkCall ''fetchFollowersCount''])
                            | Inr totalFollowers \<Rightarrow>
                                (Inr \<lparr>card_username = username,
                                      card_rank = calculateRank
                                        \<lparr>all_commits = True,
                                         totalCommits = real commits,
                                         prs = real (totalPRs r),
                                         issues = real (totalIssues r),
                                         reviews = real totalReviews,
                                         stars = real (totalStars r),
                                         followers = real totalFollowers,
                                         repos = Some (real (repoCount r))\<rparr>,
                                      card_totalStars = totalStars r,
                                      card_totalForks = totalForks r,
                                      card_totalCommits = commits,
                                      card_totalPRs = totalPRs r,
                                      card_totalIssues = totalIssues r,
                                      card_activeReposLastYear = activeReposLastYear r\<rparr>,
                                 NetworkCall ''fetchAllRepos'' # fx
                                   @ [NetworkCall ''fetchTotalReviewsAllTime'',
                                      NetworkCall ''fetchFollowersCount'']))))))"

text \<open>
  \<open>buildStatsSvg\<close>: the \<open>try\<close> block, and the \<open>catch\<close> block that logs
  the error and answers with the error image.
\<close>

definition buildStatsSvg :: "Env \<Rightarrow> StatsWorld \<Rightarrow> Response \<times> Effect list" where
  "buildStatsSvg env w =
     (case stats_try env w of
        (Inr summary, fx) \<Rightarrow> (StatsSvg summary, fx)
      | (Inl message, fx) \<Rightarrow>
          (ErrorSvg (''Error: '' @ message), fx @ [ConsoleError (''GET error: '' @ message)]))"

subsection \<open>Top-languages card (the route handler around fetchTopLanguages)\<close>

text \<open>
  \<^verbatim>\<open>if (!username) throw new Error("Missing GITHUB_USERNAME");
  if (!process.env.GITHUB_TOKEN) throw new Error("Missing GITHUB_TOKEN");
  const langs = await fetchTopLanguages(username);\<close>
  The handler does not return (\<open>None\<close>) when \<open>fetchTopLanguages\<close> does not.
\<close>

definition GET_top_langs ::
  "Env \<Rightarrow> (string + TopLanguagesResponse) list \<Rightarrow> Response option \<times> Effect list" where
  "GET_top_langs env answers =
     (if falsy (GITHUB_USERNAME env) then
        (Some (ErrorSvg ''Error: Missing GITHUB_USERNAME''),
         [ConsoleError ''GET error: Missing GITHUB_USERNAME''])
      else if falsy (GITHUB_TOKEN env) then
        (Some (ErrorSvg ''Error: Missing GITHUB_TOKEN''),
         [ConsoleError ''GET error: Missing GITHUB_TOKEN''])
      else
        (case fetchTopLanguages answers of
           (None, fx) \<Rightarrow> (None, fx)
         | (Some (Inl err), fx) \<Rightarrow>
             (Some (ErrorSvg (''Error: '' @ err)), fx @ [ConsoleError (''GET error: '' @ err)])
         | (Some (Inr langs), fx) \<Rightarrow> (Some (TopLangSvg langs), fx)))"

subsection \<open>Streak card (buildStreakSvg)\<close>

record ContributionCalendar =
  totalContributions :: nat
  weeks :: "ContributionDay list list"

text \<open>Times are milliseconds since the epoch; one window is at most 365 days.\<close>

definition YEAR_MS :: int where
  "YEAR_MS = 365 * 24 * 60 * 60 * 1000"

text \<open>
  The loop of \<open>fetchContributions\<close>. \<open>graphql\<close> is the outcome of the calendar
  query for a login and a window. The variable \<open>end\<close> of the source always holds
  \<open>min(to, start + 365 days)\<close> for the current \<open>start\<close> and is written so:
  \<^verbatim>\<open>while (start.getTime() < to.getTime()) {
    const { user } = await octokit.graphql(query, {login, from: start, to: end});
    contributions.push(...days); totalContributions += ...;
    start = new Date(end.getTime() + 1000);
    end = new Date(Math.min(to.getTime(), start.getTime() + 365 * 24 * 60 * 60 * 1000)); }\<close>
\<close>

function fetch_contributions_loop ::
  "(string \<Rightarrow> int \<Rightarrow> int \<Rightarrow> string + ContributionCalendar) \<Rightarrow> string \<Rightarrow> int \<Rightarrow> int \<Rightarrow>
   ContributionDay list \<Rightarrow> nat \<Rightarrow> (string + ContributionDay list \<times> nat) \<times> Effect list" where
  "fetch_contributions_loop graphql username to start contributions running_total =
     (if start < to then
        (case graphql username start (min to (start + YEAR_MS)) of
           Inl err \<Rightarrow> (Inl err, [NetworkCall ''graphql''])
         | Inr cal \<Rightarrow>
             (case fetch_contributions_loop graphql username to
                     (min to (start + YEAR_MS) + 1000)
                     (contributions @ concat (weeks cal)) (running_total + totalContributions cal) of
                (r, fx) \<Rightarrow> (r, NetworkCall ''graphql'' # fx)))
      else (Inr (contributions, running_total), []))"
  by pat_completeness auto
termination
  by (relation "measure (\<lambda>(graphql, username, to, start, contributions, running_total). nat (to - start))")
    (auto simp: YEAR_MS_def)

definition fetchContributions ::
  "(string \<Rightarrow> int \<Rightarrow> int \<Rightarrow> string + ContributionCalendar) \<Rightarrow> string \<Rightarrow> int \<Rightarrow> int \<Rightarrow>
   (string + ContributionDay list \<times> nat) \<times> Effect list" where
  "fetchContributions graphql username from to =
     fetch_contributions_loop graphql username to from [] 0"

text \<open>
  \<open>formatStreakRange(days, startIdx, endIdx)\<close> reads \<open>days[startIdx].date\<close> and
  \<open>days[endIdx].date\<close>; outside the array that is a \<open>TypeError\<close>. The formatted
  range is represented by the two dates.
\<close>

definition formatStreakRange ::
  "ContributionDay list \<Rightarrow> int \<Rightarrow> int \<Rightarrow> string + (string \<times> string)" where
  "formatStreakRange days startIdx endIdx =
     (case at_index days startIdx of
        None \<Rightarrow> Inl ''Cannot read properties of undefined''
      | Some s \<Rightarrow>
          (case at_index days endIdx of
             None \<Rightarrow> Inl ''Cannot read properties of undefined''
           | Some e \<Rightarrow> Inr (date s, date e)))"

text \<open>
  The \<open>try\<close> block of \<open>buildStreakSvg\<close>. \<open>from\<close> is the first instant of the
  joining year, \<open>now\<close> the time of the request, \<open>dateTime\<close> the reading of a
  date string as a time (the sort key). \<open>formatTotalRange\<close> writes the first
  active date with \<open>console.log\<close>. Only the user name is tested before
  \<open>fetchContributions\<close> is called:
  \<^verbatim>\<open>if (!username) throw new Error("Add github username in env.GITHUB_USERNAME");
  const fetchedData = await fetchContributions(username, from, to);\<close>
\<close>

definition streak_try ::
  "Env \<Rightarrow> (string \<Rightarrow> int \<Rightarrow> int \<Rightarrow> string + ContributionCalendar) \<Rightarrow> int \<Rightarrow> int \<Rightarrow>
   (string \<Rightarrow> int) \<Rightarrow> (string + StreakCard) \<times> Effect list" where
  "streak_try env graphql from now dateTime =
     (case GITHUB_USERNAME env of
        None \<Rightarrow> (Inl ''Add github username in env.GITHUB_USERNAME'', [])
      | Some username \<Rightarrow>
          if username = '''' then (Inl ''Add github username in env.GITHUB_USERNAME'', [])
          else
            (case fetchContributions graphql username from now of
               (Inl err, fx) \<Rightarrow> (Inl err, fx)
             | (Inr (contributions, running_total), fx) \<Rightarrow>
                 (let days = sort_key (\<lambda>d. dateTime (date d)) contributions;
                      s = computeStreaks days;
                      best = longest_range days;
                      endIdx = int (length days) - 1;
                      startIdx = endIdx - int (currentStreak s) + 1;
                      firstActive = find (\<lambda>d. contributionCount d > 0) days
                  in
                    case (if fst best \<ge> 0 \<and> snd best \<ge> 0
                          then map_sum id Some (formatStreakRange days (fst best) (snd best))
                          else Inr None) of
                      Inl err \<Rightarrow> (Inl err, fx)
                    | Inr longestRange \<Rightarrow>
                        (case (if currentStreak s > 0
                               then map_sum id Some (formatStreakRange days startIdx endIdx)
                               else Inr None) of
                           Inl err \<Rightarrow> (Inl err, fx)
                         | Inr currRange \<Rightarrow>
                             (Inr \<lparr>streak_totalContributions = running_total,
                                   streak_totalRange = map_option date firstActive,
                                   streak_currentStreak = currentStreak s,
                                   streak_currRange = currRange,
                                   streak_longestStreak = longestStreak s,
                                   streak_longestRange = longestRange\<rparr>,
                              fx @ (case firstActive of
                                      None \<Rightarrow> []
                                    | Some d \<Rightarrow> [ConsoleLog (''date '' @ date d)]))))))"

definition buildStreakSvg ::
  "Env \<Rightarrow> (string \<Rightarrow> int \<Rightarrow> int \<Rightarrow> string + ContributionCalendar) \<Rightarrow> int \<Rightarrow> int \<Rightarrow>
   (string \<Rightarrow> int) \<Rightarrow> Response \<times> Effect list" where
  "buildStreakSvg env graphql from now dateTime =
     (case streak_try env graphql from now dateTime of
        (Inr summary, fx) \<Rightarrow> (StreakSvg summary, fx)
      | (Inl message, fx) \<Rightarrow> (ErrorSvg (''Error: '' @ message), fx))"

subsection \<open>A concrete configuration\<close>

text \<open>
  A configuration with both values set, the same without a token, and a world in which
  the commit search fails with a rate-limit error while the other sources answer.
\<close>

definition example_env :: Env where
  "example_env = \<lparr>GITHUB_USERNAME = Some ''octocat'', GITHUB_TOKEN = Some ''ghp_example''\<rparr>"

definition env_without_token :: Env where
  "env_without_token = \<lparr>GITHUB_USERNAME = Some ''octocat'', GITHUB_TOKEN = None\<rparr>"

definition example_world :: StatsWorld where
  "example_world =
     \<lparr>fetchAllRepos = (\<lambda>login. Inr \<lparr>totalStars = 50, totalForks = 3, repoCount = 7,
                                     activeReposLastYear = 2, totalPRs = 50, totalIssues = 25\<rparr>),
      search_commits = (\<lambda>login. Inl ''API rate limit exceeded''),
      fetchTotalReviewsAllTime = (\<lambda>login. Inr 2),
      fetchFollowersCount = (\<lambda>login. Inr 10)\<rparr>"

section \<open>Double precision: facts about rounding\<close>

text \<open>
  \<open>round_even\<close> is within one half of its argument, monotone and odd; \<open>fl\<close> is
  evaluated at a value whose binade is known (\<open>fl_eval\<close>, \<open>fl_eval_subnormal\<close>),
  is monotone (\<open>fl_mono\<close>) and odd, and has relative error at most \<open>2^-53\<close> in the
  normal range (\<open>fl_error\<close>).
\<close>

lemma round_even_bounds: "\<lfloor>r\<rfloor> \<le> round_even r \<and> round_even r \<le> \<lfloor>r\<rfloor> + 1"
  by (simp add: round_even_def)

lemma round_even_error: "\<bar>of_int (round_even r) - r\<bar> \<le> 1 / 2"
  unfolding round_even_def by (auto simp: abs_if) linarith+

lemma round_even_of_int [simp]: "round_even (of_int n) = n"
  by (simp add: round_even_def)

lemma round_even_mono: "r \<le> s \<Longrightarrow> round_even r \<le> round_even s"
proof -
  assume le: "r \<le> s"
  then have fle: "\<lfloor>r\<rfloor> \<le> \<lfloor>s\<rfloor>" by (rule floor_mono)
  show ?thesis
  proof (cases "\<lfloor>r\<rfloor> = \<lfloor>s\<rfloor>")
    case True
    with le show ?thesis by (auto simp: round_even_def)
  next
    case False
    with fle have "\<lfloor>r\<rfloor> + 1 \<le> \<lfloor>s\<rfloor>" by simp
    with round_even_bounds [of r] round_even_bounds [of s] show ?thesis by linarith
  qed
qed

lemma round_even_le_int: "r \<le> of_int n \<Longrightarrow> round_even r \<le> n"
  using round_even_mono [of r "of_int n"] by simp

lemma round_even_ge_int: "of_int n \<le> r \<Longrightarrow> n \<le> round_even r"
  using round_even_mono [of "of_int n" r] by simp

lemma round_even_minus: "round_even (- r) = - round_even r"
proof (cases "r = of_int \<lfloor>r\<rfloor>")
  case True
  then obtain n where "r = of_int n" ..
  then have "- r = of_int (- n)" by simp
  then show ?thesis unfolding \<open>r = of_int n\<close> by (simp only: round_even_of_int)
next
  case False
  then have fm: "\<lfloor>- r\<rfloor> = - \<lfloor>r\<rfloor> - 1"
    by (metis ceiling_altdef ceiling_def add_diff_cancel_right' minus_diff_eq minus_minus
        uminus_add_conv_diff floor_of_int of_int_floor_cancel)
  show ?thesis
    unfolding round_even_def fm by (auto simp: algebra_simps)
qed

lemma powr_int_eq: "(2::real) powr real_of_int k = 2 powi k"
  by (rule powr_real_of_int') simp_all

lemma binade_bounds:
  assumes "x \<noteq> 0"
  shows "2 powi \<lfloor>log 2 \<bar>x\<bar>\<rfloor> \<le> \<bar>x\<bar>" and "\<bar>x\<bar> < 2 powi (\<lfloor>log 2 \<bar>x\<bar>\<rfloor> + 1)"
proof -
  from assms have pos: "0 < \<bar>x\<bar>" by simp
  have "\<lfloor>log 2 \<bar>x\<bar>\<rfloor> = \<lfloor>log 2 \<bar>x\<bar>\<rfloor>" ..
  then have "2 powr real_of_int \<lfloor>log 2 \<bar>x\<bar>\<rfloor> \<le> \<bar>x\<bar> \<and>
      \<bar>x\<bar> < 2 powr real_of_int (\<lfloor>log 2 \<bar>x\<bar>\<rfloor> + 1)"
    by (subst (asm) floor_log_eq_powr_iff [OF pos]) simp_all
  then show "2 powi \<lfloor>log 2 \<bar>x\<bar>\<rfloor> \<le> \<bar>x\<bar>" and "\<bar>x\<bar> < 2 powi (\<lfloor>log 2 \<bar>x\<bar>\<rfloor> + 1)"
    unfolding powr_int_eq by blast+
qed

lemma binade_eq:
  assumes "2 powi k \<le> \<bar>x\<bar>" and "\<bar>x\<bar> < 2 powi (k + 1)"
  shows "\<lfloor>log 2 \<bar>x\<bar>\<rfloor> = k"
proof -
  have "0 < (2::real) powi k" by (simp add: zero_less_power_int)
  with assms(1) have pos: "0 < \<bar>x\<bar>" by linarith
  have "2 powr real_of_int k \<le> \<bar>x\<bar> \<and> \<bar>x\<bar> < 2 powr real_of_int (k + 1)"
    unfolding powr_int_eq using assms by blast
  then show ?thesis
    by (subst floor_log_eq_powr_iff [OF pos]) simp_all
qed

lemma ulp_exponent_eq:
  assumes "2 powi k \<le> \<bar>x\<bar>" and "\<bar>x\<bar> < 2 powi (k + 1)"
  shows "ulp_exponent x = max k (- 1022) - 52"
  unfolding ulp_exponent_def binade_eq [OF assms] ..

lemma fl_eval:
  assumes "2 powi k \<le> \<bar>x\<bar>" and "\<bar>x\<bar> < 2 powi (k + 1)" and "- 1022 \<le> k"
  shows "fl x = of_int (round_even (x / 2 powi (k - 52))) * 2 powi (k - 52)"
proof -
  have "0 < (2::real) powi k" by (simp add: zero_less_power_int)
  with assms(1) have "0 < \<bar>x\<bar>" by linarith
  then have "x \<noteq> 0" by simp
  moreover have "ulp_exponent x = k - 52"
    using ulp_exponent_eq [OF assms(1,2)] assms(3) by simp
  ultimately show ?thesis by (simp add: fl_def)
qed

lemma fl_0 [simp]: "fl 0 = 0"
  by (simp add: fl_def)

lemma ulp_exponent_minus [simp]: "ulp_exponent (- x) = ulp_exponent x"
  by (simp add: ulp_exponent_def)

lemma fl_minus: "fl (- x) = - fl x"
  by (simp add: fl_def round_even_minus)

lemma ulp_exponent_mono:
  assumes "0 < x" and "x \<le> y"
  shows "ulp_exponent x \<le> ulp_exponent y"
proof -
  have "log 2 \<bar>x\<bar> \<le> log 2 \<bar>y\<bar>" using assms by simp
  then have "\<lfloor>log 2 \<bar>x\<bar>\<rfloor> \<le> \<lfloor>log 2 \<bar>y\<bar>\<rfloor>" by (rule floor_mono)
  then show ?thesis by (simp add: ulp_exponent_def)
qed

lemma pow2_pos: "0 < (2::real) powi e"
  by (simp add: zero_less_power_int)

lemma fl_pos_unfold: "0 < x \<Longrightarrow> fl x = of_int (round_even (x / 2 powi ulp_exponent x)) * 2 powi ulp_exponent x"
  by (simp add: fl_def)

lemma pow2_split: "(2::real) powi (e + n) = 2 powi n * 2 powi e"
  by (simp add: power_int_add mult.commute)

lemma fl_le_binade_top:
  assumes "0 < x"
  shows "fl x \<le> 2 powi (ulp_exponent x + 53)"
proof -
  let ?e = "ulp_exponent x"
  have "\<lfloor>log 2 \<bar>x\<bar>\<rfloor> + 1 \<le> ?e + 53" by (simp add: ulp_exponent_def)
  then have "(2::real) powi (\<lfloor>log 2 \<bar>x\<bar>\<rfloor> + 1) \<le> 2 powi (?e + 53)"
    by (intro power_int_increasing) simp_all
  with binade_bounds(2) [of x] assms have "x < 2 powi (?e + 53)" by simp
  then have "x < 2 powi 53 * 2 powi ?e" by (simp only: pow2_split)
  then have "x / 2 powi ?e < 2 powi 53" by (simp add: pos_divide_less_eq pow2_pos)
  then have "x / 2 powi ?e \<le> of_int (2 ^ 53)" by simp
  then have "round_even (x / 2 powi ?e) \<le> 2 ^ 53" by (rule round_even_le_int)
  then have "(of_int (round_even (x / 2 powi ?e)) :: real) \<le> of_int (2 ^ 53)"
    by (simp only: of_int_le_iff)
  then have "of_int (round_even (x / 2 powi ?e)) * 2 powi ?e \<le> (of_int (2 ^ 53) :: real) * 2 powi ?e"
    by (rule mult_right_mono) (simp add: less_imp_le pow2_pos)
  also have "(of_int (2 ^ 53) :: real) = 2 powi 53" by simp
  finally show ?thesis unfolding fl_pos_unfold [OF assms] pow2_split .
qed

lemma fl_ge_binade_bottom:
  assumes "0 < x" and "- 1022 \<le> \<lfloor>log 2 \<bar>x\<bar>\<rfloor>"
  shows "2 powi (ulp_exponent x + 52) \<le> fl x"
proof -
  let ?e = "ulp_exponent x"
  have e: "?e + 52 = \<lfloor>log 2 \<bar>x\<bar>\<rfloor>" using assms(2) by (simp add: ulp_exponent_def)
  with binade_bounds(1) [of x] assms(1) have "2 powi (?e + 52) \<le> x" by simp
  then have "2 powi 52 * 2 powi ?e \<le> x" by (simp only: pow2_split)
  then have "2 powi 52 \<le> x / 2 powi ?e" by (simp add: pos_le_divide_eq pow2_pos)
  then have "of_int (2 ^ 52) \<le> x / 2 powi ?e" by simp
  then have "2 ^ 52 \<le> round_even (x / 2 powi ?e)" by (rule round_even_ge_int)
  then have "(of_int (2 ^ 52) :: real) \<le> of_int (round_even (x / 2 powi ?e))"
    by (simp only: of_int_le_iff)
  then have "(of_int (2 ^ 52) :: real) * 2 powi ?e \<le> of_int (round_even (x / 2 powi ?e)) * 2 powi ?e"
    by (rule mult_right_mono) (simp add: less_imp_le pow2_pos)
  moreover have "(of_int (2 ^ 52) :: real) = 2 powi 52" by simp
  ultimately show ?thesis unfolding fl_pos_unfold [OF assms(1)] pow2_split by simp
qed

lemma fl_nonneg: "0 \<le> x \<Longrightarrow> 0 \<le> fl x"
proof -
  assume "0 \<le> x"
  then have "of_int 0 \<le> x / 2 powi ulp_exponent x" by simp
  then have "0 \<le> round_even (x / 2 powi ulp_exponent x)" by (rule round_even_ge_int)
  then show ?thesis by (simp add: fl_def)
qed

lemma fl_mono_pos:
  assumes "0 < x" and "x \<le> y"
  shows "fl x \<le> fl y"
proof -
  let ?ex = "ulp_exponent x" and ?ey = "ulp_exponent y"
  from assms have ypos: "0 < y" by simp
  have le: "?ex \<le> ?ey" using assms by (rule ulp_exponent_mono)
  show ?thesis
  proof (cases "?ex = ?ey")
    case True
    have "x / 2 powi ?ex \<le> y / 2 powi ?ex" using assms(2) by (simp add: divide_right_mono)
    then have "round_even (x / 2 powi ?ex) \<le> round_even (y / 2 powi ?ex)" by (rule round_even_mono)
    then have "of_int (round_even (x / 2 powi ?ex)) * 2 powi ?ex
        \<le> (of_int (round_even (y / 2 powi ?ex)) :: real) * 2 powi ?ex"
      by (intro mult_right_mono) simp_all
    then show ?thesis using assms ypos True by (simp add: fl_def)
  next
    case False
    with le have lt: "?ex + 1 \<le> ?ey" by simp
    moreover have "max a (- 1022) - 52 + 1 \<le> max b (- 1022) - 52 \<Longrightarrow> - 1022 \<le> b" for a b :: int
      by (simp add: max_def split: if_splits)
    ultimately have "- 1022 \<le> \<lfloor>log 2 \<bar>y\<bar>\<rfloor>" unfolding ulp_exponent_def by blast
    with ypos have "2 powi (?ey + 52) \<le> fl y" by (rule fl_ge_binade_bottom)
    moreover have "fl x \<le> 2 powi (?ex + 53)" using assms(1) by (rule fl_le_binade_top)
    moreover have "(2::real) powi (?ex + 53) \<le> 2 powi (?ey + 52)"
      using lt by (intro power_int_increasing) simp_all
    ultimately show ?thesis by linarith
  qed
qed

lemma fl_mono: "x \<le> y \<Longrightarrow> fl x \<le> fl y"
proof -
  assume le: "x \<le> y"
  consider "0 < x" | "x \<le> 0" "0 \<le> y" | "y < 0" by linarith
  then show ?thesis
  proof cases
    case 1
    then show ?thesis using le by (rule fl_mono_pos)
  next
    case 2
    from 2(1) have "0 \<le> fl (- x)" by (intro fl_nonneg) simp
    then have "fl x \<le> 0" by (simp add: fl_minus)
    moreover have "0 \<le> fl y" using 2(2) by (rule fl_nonneg)
    ultimately show ?thesis by simp
  next
    case 3
    then have "0 < - y" and "- y \<le> - x" using le by simp_all
    then have "fl (- y) \<le> fl (- x)" by (rule fl_mono_pos)
    then show ?thesis by (simp add: fl_minus)
  qed
qed

lemma fl_error:
  assumes "2 powi (- 1022) \<le> \<bar>x\<bar>"
  shows "\<bar>fl x - x\<bar> \<le> \<bar>x\<bar> / 2 ^ 53"
proof -
  let ?e = "ulp_exponent x"
  have "0 < (2::real) powi (- 1022)" by (rule pow2_pos)
  with assms have nz: "x \<noteq> 0" by auto
  have "(2::real) powi (- 1022) \<le> \<bar>x\<bar>" by (rule assms)
  also have "\<bar>x\<bar> < 2 powi (\<lfloor>log 2 \<bar>x\<bar>\<rfloor> + 1)" using nz by (rule binade_bounds(2))
  finally have lt: "(2::real) powi (- 1022) < 2 powi (\<lfloor>log 2 \<bar>x\<bar>\<rfloor> + 1)" .
  have "- 1022 < \<lfloor>log 2 \<bar>x\<bar>\<rfloor> + 1"
  proof (rule ccontr)
    assume "\<not> - 1022 < \<lfloor>log 2 \<bar>x\<bar>\<rfloor> + 1"
    then have "\<lfloor>log 2 \<bar>x\<bar>\<rfloor> + 1 \<le> - 1022" by linarith
    then have "(2::real) powi (\<lfloor>log 2 \<bar>x\<bar>\<rfloor> + 1) \<le> 2 powi (- 1022)"
      by (intro power_int_increasing) simp_all
    with lt show False by simp
  qed
  then have e: "?e + 52 = \<lfloor>log 2 \<bar>x\<bar>\<rfloor>" by (simp add: ulp_exponent_def)
  have "fl x - x = (of_int (round_even (x / 2 powi ?e)) - x / 2 powi ?e) * 2 powi ?e"
    using nz by (simp add: fl_def algebra_simps)
  then have "\<bar>fl x - x\<bar> = \<bar>of_int (round_even (x / 2 powi ?e)) - x / 2 powi ?e\<bar> * 2 powi ?e"
    by (simp add: abs_mult)
  also have "\<dots> \<le> 1 / 2 * 2 powi ?e"
    by (intro mult_right_mono round_even_error) simp
  also have "\<dots> = 2 powi (?e + 52) / 2 ^ 53"
    by (simp add: power_int_add)
  also have "\<dots> \<le> \<bar>x\<bar> / 2 ^ 53"
    unfolding e using binade_bounds(1) [OF nz] by (simp add: divide_right_mono)
  finally show ?thesis .
qed

lemma round_even_numeral [simp]: "round_even (numeral n) = numeral n"
  using round_even_of_int [of "numeral n"] by simp

lemma round_even_0 [simp]: "round_even 0 = 0"
  using round_even_of_int [of 0] by simp

lemma round_even_1 [simp]: "round_even 1 = 1"
  using round_even_of_int [of 1] by simp

lemma fl_1: "fl 1 = 1"
  by (subst fl_eval [where k = 0]) simp_all

lemma fl_half: "fl (1/2) = 1/2"
  by (subst fl_eval [where k = "-1"]) simp_all

lemma fl_eval_subnormal:
  assumes "x \<noteq> 0" and "\<bar>x\<bar> < 2 powi (- 1022)"
  shows "fl x = of_int (round_even (x / 2 powi (- 1074))) * 2 powi (- 1074)"
proof -
  have "\<lfloor>log 2 \<bar>x\<bar>\<rfloor> < - 1022"
  proof (rule ccontr)
    assume "\<not> \<lfloor>log 2 \<bar>x\<bar>\<rfloor> < - 1022"
    then have "- 1022 \<le> \<lfloor>log 2 \<bar>x\<bar>\<rfloor>" by linarith
    then have "(2::real) powi (- 1022) \<le> 2 powi \<lfloor>log 2 \<bar>x\<bar>\<rfloor>"
      by (intro power_int_increasing) simp_all
    with binade_bounds(1) [OF assms(1)] assms(2) show False by linarith
  qed
  then have "ulp_exponent x = - 1074" unfolding ulp_exponent_def by linarith
  with assms(1) show ?thesis by (simp add: fl_def)
qed

lemma fl_min_subnormal: "fl (2 powi (- 1074)) = 2 powi (- 1074)"
  by (subst fl_eval_subnormal) (simp_all add: power_int_minus)

lemma pow2_int_nonneg: "0 \<le> k \<Longrightarrow> (2::real) powi k = of_int (2 ^ nat k)"
  by (simp add: power_int_def)

lemma pow2_int_nonpos: "k \<le> 0 \<Longrightarrow> (2::real) powi k = inverse (of_int (2 ^ nat (- k)))"
  by (cases "k = 0") (simp_all add: power_int_def power_one_over inverse_eq_divide)

lemma fl_nat_exact:
  assumes "n < 2 ^ 53"
  shows "fl (real n) = real n"
proof (cases "n = 0")
  case True
  then show ?thesis by simp
next
  case False
  define k where "k = \<lfloor>log 2 \<bar>real n\<bar>\<rfloor>"
  from False have nz: "real n \<noteq> 0" by simp
  have b1: "2 powi k \<le> \<bar>real n\<bar>" and b2: "\<bar>real n\<bar> < 2 powi (k + 1)"
    using binade_bounds [OF nz] by (simp_all add: k_def)
  have "1 \<le> real n" using False by simp
  then have "0 \<le> log 2 (real n)" by simp
  then have k0: "0 \<le> k" by (simp add: k_def)
  have k52: "k \<le> 52"
  proof (rule ccontr)
    assume "\<not> k \<le> 52"
    then have "53 \<le> k" by simp
    then have "(2::real) powi 53 \<le> 2 powi k" by (intro power_int_increasing) simp_all
    with b1 have "(2::real) ^ 53 \<le> real n" by simp
    moreover have "real n < 2 ^ 53" using assms by (metis of_nat_less_iff of_nat_numeral of_nat_power)
    ultimately show False by simp
  qed
  define m where "m = nat (52 - k)"
  have p: "(2::real) powi (k - 52) = inverse (of_int (2 ^ m))"
    unfolding m_def using k52 pow2_int_nonpos [of "k - 52"] by simp
  have q: "real n / 2 powi (k - 52) = of_int (int n * 2 ^ m)"
    unfolding p by (simp add: field_simps)
  have r: "round_even (real n / 2 powi (k - 52)) = int n * 2 ^ m"
    by (simp only: q round_even_of_int)
  have "fl (real n) = of_int (round_even (real n / 2 powi (k - 52))) * 2 powi (k - 52)"
    using b1 b2 k0 by (intro fl_eval) simp_all
  also have "\<dots> = of_int (int n * 2 ^ m) * inverse (of_int (2 ^ m))"
    by (subst r) (simp only: p)
  also have "\<dots> = real n" by simp
  finally show ?thesis .
qed

lemma fl_pow2:
  assumes "- 1022 \<le> k"
  shows "fl (2 powi k) = 2 powi k"
proof -
  have "(2::real) powi k / 2 powi (k - 52) = 2 powi 52"
    by (simp add: power_int_diff)
  also have "\<dots> = of_int (2 ^ 52)" by simp
  finally have q: "(2::real) powi k / 2 powi (k - 52) = of_int (2 ^ 52)" .
  have "fl (2 powi k) = of_int (round_even (2 powi k / 2 powi (k - 52))) * 2 powi (k - 52)"
    using assms by (intro fl_eval) (simp_all add: power_int_add)
  also have "\<dots> = of_int (2 ^ 52) * 2 powi (k - 52)"
    by (simp only: q round_even_of_int)
  also have "(of_int (2 ^ 52) :: real) = 2 powi 52" by simp
  also have "(2::real) powi 52 * 2 powi (k - 52) = 2 powi (k - 52 + 52)"
    by (simp only: pow2_split)
  also have "k - 52 + 52 = k" by simp
  finally show ?thesis .
qed

lemma fl_2: "fl 2 = 2"
  by (subst fl_eval [where k = 1]) simp_all

lemma fl_100: "fl 100 = 100"
  by (subst fl_eval [where k = "6"]) (simp_all add: round_even_def)


text \<open>
  Every double is an integer multiple of \<open>2^-1074\<close>, so the rounded difference of two
  doubles has the sign of their difference.
\<close>

lemma fl_on_grid: "\<exists>m::int. fl x = of_int m * 2 powi (- 1074)"
proof (cases "x = 0")
  case True
  then show ?thesis by (intro exI [of _ 0]) simp
next
  case False
  define e where "e = ulp_exponent x"
  have "- 1074 \<le> e" by (simp add: e_def ulp_exponent_def)
  then have "0 \<le> e + 1074" by simp
  then have "(2::real) powi (e + 1074) = of_int (2 ^ nat (e + 1074))" by (rule pow2_int_nonneg)
  moreover have "(2::real) powi e = 2 powi (e + 1074) * 2 powi (- 1074)"
  proof -
    have "- 1074 + (e + 1074) = e" by simp
    with pow2_split [of "- 1074" "e + 1074"] show ?thesis by simp
  qed
  ultimately have "(2::real) powi e = of_int (2 ^ nat (e + 1074)) * 2 powi (- 1074)" by simp
  then have "fl x = of_int (round_even (x / 2 powi e) * 2 ^ nat (e + 1074)) * 2 powi (- 1074)"
    using False by (simp add: fl_def e_def)
  then show ?thesis by blast
qed

lemma fl_difference_sign:
  "0 < fl (fl a - fl b) \<longleftrightarrow> fl b < fl a"
proof
  assume "0 < fl (fl a - fl b)"
  show "fl b < fl a"
  proof (rule ccontr)
    assume "\<not> fl b < fl a"
    then have "fl a - fl b \<le> 0" by simp
    then have "fl (fl a - fl b) \<le> fl 0" by (rule fl_mono)
    with \<open>0 < fl (fl a - fl b)\<close> show False by simp
  qed
next
  assume lt: "fl b < fl a"
  obtain ma mb :: int where a: "fl a = of_int ma * 2 powi (- 1074)"
    and b: "fl b = of_int mb * 2 powi (- 1074)"
    using fl_on_grid [of a] fl_on_grid [of b] by blast
  have p: "0 < (2::real) powi (- 1074)" by (rule pow2_pos)
  from lt have "of_int mb * 2 powi (- 1074) < (of_int ma :: real) * 2 powi (- 1074)"
    by (simp only: a b)
  then have "(of_int mb :: real) < of_int ma" using p by (simp only: mult_less_cancel_right_pos)
  then have "mb + 1 \<le> ma" by simp
  then have "(of_int (mb + 1) :: real) \<le> of_int ma" by (simp only: of_int_le_iff)
  then have "(of_int (mb + 1) :: real) * 2 powi (- 1074) \<le> of_int ma * 2 powi (- 1074)"
    using p by (intro mult_right_mono) simp_all
  then have "2 powi (- 1074) \<le> fl a - fl b" unfolding a b by (simp add: algebra_simps)
  then have "fl (2 powi (- 1074)) \<le> fl (fl a - fl b)" by (rule fl_mono)
  then have "2 powi (- 1074) \<le> fl (fl a - fl b)" by (simp only: fl_min_subnormal)
  with p show "0 < fl (fl a - fl b)" by linarith
qed

lemma fl_upper:
  assumes "0 \<le> x" and "x = 0 \<or> 2 powi (- 1022) \<le> x"
  shows "fl x \<le> x * (1 + 1 / 2 ^ 53)"
proof (cases "x = 0")
  case True
  then show ?thesis by simp
next
  case False
  with assms have "2 powi (- 1022) \<le> \<bar>x\<bar>" by simp
  from fl_error [OF this] assms(1) have "\<bar>fl x - x\<bar> \<le> x / 2 ^ 53" by simp
  then have "fl x \<le> x + x / 2 ^ 53" by linarith
  also have "\<dots> = x * (1 + 1 / 2 ^ 53)" by (simp only: distrib_left mult_1_right times_divide_eq_right)
  finally show ?thesis .
qed

lemma fl_lower:
  assumes "0 \<le> x" and "x = 0 \<or> 2 powi (- 1022) \<le> x"
  shows "x * (1 - 1 / 2 ^ 53) \<le> fl x"
proof (cases "x = 0")
  case True
  then show ?thesis by simp
next
  case False
  with assms have "2 powi (- 1022) \<le> \<bar>x\<bar>" by simp
  from fl_error [OF this] assms(1) have "\<bar>fl x - x\<bar> \<le> x / 2 ^ 53" by simp
  then have "x - x / 2 ^ 53 \<le> fl x" by linarith
  moreover have "x - x / 2 ^ 53 = x * (1 - 1 / 2 ^ 53)"
    by (simp only: right_diff_distrib mult_1_right times_divide_eq_right)
  ultimately show ?thesis by simp
qed

lemma pow2_small: "(2::real) powi (- 1022) \<le> 1 / 1000"
proof -
  have "(2::real) powi (- 1022) \<le> 2 powi (- 10)" by (intro power_int_increasing) simp_all
  also have "\<dots> \<le> 1 / 1000" by (simp add: power_int_minus)
  finally show ?thesis .
qed

lemma fl_abs_error:
  assumes "\<bar>x\<bar> \<le> B" and "2 powi (- 1022) \<le> B"
  shows "\<bar>fl x - x\<bar> \<le> B / 2 ^ 53"
proof -
  have Bpos: "0 < B" using assms(2) pow2_pos [of "- 1022"] by linarith
  consider "x = 0" | "2 powi (- 1022) \<le> \<bar>x\<bar>" | "x \<noteq> 0" "\<bar>x\<bar> < 2 powi (- 1022)" by linarith
  then show ?thesis
  proof cases
    case 1
    then show ?thesis using Bpos by simp
  next
    case 2
    from fl_error [OF 2] have "\<bar>fl x - x\<bar> \<le> \<bar>x\<bar> / 2 ^ 53" .
    also have "\<dots> \<le> B / 2 ^ 53" using assms(1) by (simp add: divide_right_mono)
    finally show ?thesis .
  next
    case 3
    define p :: real where "p = 2 powi (- 1074)"
    have p: "0 < p" unfolding p_def by (rule pow2_pos)
    let ?r = "x / p"
    have "fl x = of_int (round_even ?r) * p" unfolding p_def by (rule fl_eval_subnormal [OF 3])
    then have "fl x - x = (of_int (round_even ?r) - ?r) * p"
      using p by (simp add: algebra_simps)
    then have "\<bar>fl x - x\<bar> = \<bar>of_int (round_even ?r) - ?r\<bar> * p"
      using p by (simp add: abs_mult)
    also have "\<dots> \<le> 1 / 2 * p"
      using p by (intro mult_right_mono round_even_error) simp
    also have "1 / 2 * p = 2 powi (- 1022) / 2 ^ 53"
    proof -
      have "(2::real) powi (- 1022) = 2 powi 52 * 2 powi (- 1074)"
        using pow2_split [of "- 1074" 52] by simp
      then show ?thesis unfolding p_def by simp
    qed
    also have "\<dots> \<le> B / 2 ^ 53" using assms(2) by (simp add: divide_right_mono)
    finally show ?thesis .
  qed
qed


text \<open>
  Elementary bounds on \<open>2 powr a\<close>, and the effect on \<open>2 powr (- t)\<close> of a relative
  error of \<open>2^-53\<close> in \<open>t\<close>. The correctly rounded power is accurate in the sense of
  \<open>accurate_pow2\<close>.
\<close>

lemma two_powr_le:
  fixes a :: real
  assumes "0 \<le> a" and "a \<le> 1 / 2"
  shows "2 powr a \<le> 1 + 2 * a"
proof -
  have "a * ln 2 \<le> a * 1" using assms(1) ln_2_less_1 by (intro mult_left_mono) simp_all
  then have "2 powr a \<le> exp a" by (simp add: powr_def)
  also have "\<dots> \<le> 1 + a + a\<^sup>2" using assms by (intro exp_bound) simp_all
  also have "a\<^sup>2 \<le> a * 1" unfolding power2_eq_square using assms by (intro mult_left_mono) simp_all
  finally show ?thesis by simp
qed

lemma two_powr_minus_ge:
  fixes a :: real
  assumes "0 \<le> a"
  shows "1 - a \<le> 2 powr (- a)"
proof -
  have "a * ln 2 \<le> a * 1" using assms ln_2_less_1 by (intro mult_left_mono) simp_all
  then have "1 - a \<le> 1 + (- a * ln 2)" by simp
  also have "\<dots> \<le> exp (- a * ln 2)" by (rule exp_ge_add_one_self)
  also have "\<dots> = 2 powr (- a)" by (simp add: powr_def)
  finally show ?thesis .
qed

lemma le_two_powr:
  fixes t :: real
  assumes "0 \<le> t"
  shows "t \<le> 2 powr t"
proof -
  define n where "n = nat \<lfloor>t\<rfloor>"
  have n: "real n \<le> t" and t: "t < real n + 1" using assms by (simp_all add: n_def)
  have "n < 2 ^ n" by (rule less_exp)
  then have "Suc n \<le> 2 ^ n" by (rule Suc_leI)
  then have "real (Suc n) \<le> real (2 ^ n)" by (simp only: of_nat_le_iff)
  then have "real n + 1 \<le> 2 ^ n" by simp
  also have "\<dots> = 2 powr real n" by (simp add: powr_realpow)
  also have "\<dots> \<le> 2 powr t" using n by (intro powr_mono) simp_all
  finally show ?thesis using t by linarith
qed

lemma pow_perturb:
  fixes t y :: real
  assumes "0 \<le> t" and "\<bar>y - t\<bar> \<le> (t + 1 / 1000) / 2 ^ 53"
  shows "\<bar>2 powr (- y) - 2 powr (- t)\<bar> \<le> 3 / 2 ^ 53"
proof (cases "t \<le> 2 ^ 51")
  case True
  define a where "a = (t + 1 / 1000) / 2 ^ 53"
  have a0: "0 \<le> a" using assms(1) by (simp add: a_def)
  have a1: "a \<le> 1 / 2" using True by (simp add: a_def)
  have pa: "2 powr a \<le> 1 + 2 * a" using a0 a1 by (rule two_powr_le)
  have pm: "1 - a \<le> 2 powr (- a)" using a0 by (rule two_powr_minus_ge)
  from assms(2) have "\<bar>y - t\<bar> \<le> a" by (simp only: a_def)
  then have y1: "- y \<le> - t + a" and y2: "- t + (- a) \<le> - y" by linarith+
  have "2 powr (- y) \<le> 2 powr (- t + a)" using y1 by (intro powr_mono) simp_all
  also have "\<dots> = 2 powr (- t) * 2 powr a" by (simp only: powr_add)
  also have "\<dots> \<le> 2 powr (- t) * (1 + 2 * a)" using pa by (intro mult_left_mono) simp_all
  finally have up: "2 powr (- y) - 2 powr (- t) \<le> 2 * a * 2 powr (- t)" by (simp add: algebra_simps)
  have "2 powr (- t) * (1 - a) \<le> 2 powr (- t) * 2 powr (- a)"
    using pm by (intro mult_left_mono) simp_all
  also have "\<dots> = 2 powr (- t + (- a))" by (simp only: powr_add)
  also have "\<dots> \<le> 2 powr (- y)" using y2 by (intro powr_mono) simp_all
  finally have lo: "2 powr (- t) - 2 powr (- y) \<le> a * 2 powr (- t)" by (simp add: algebra_simps)
  have t1: "t * 2 powr (- t) \<le> 1"
  proof -
    have "t \<le> 2 powr t" using assms(1) by (rule le_two_powr)
    then have "t * 2 powr (- t) \<le> 2 powr t * 2 powr (- t)" by (intro mult_right_mono) simp_all
    also have "\<dots> = 1" by (simp add: powr_add [symmetric])
    finally show ?thesis .
  qed
  have t2: "2 powr (- t) \<le> 1" using powr_mono [of "- t" 0 2] assms(1) by simp
  define c where "c = a * 2 powr (- t)"
  have "c = (t * 2 powr (- t) + 2 powr (- t) / 1000) / 2 ^ 53"
    by (simp add: c_def a_def algebra_simps add_divide_distrib)
  also have "\<dots> \<le> (1 + 1 / 1000) / 2 ^ 53"
    using t1 t2 by (intro divide_right_mono add_mono) simp_all
  also have "\<dots> \<le> (3 / 2) / 2 ^ 53" by simp
  finally have "2 * c \<le> 3 / 2 ^ 53" by simp
  moreover have "0 \<le> c" using a0 by (simp add: c_def)
  moreover from up lo have "2 powr (- y) - 2 powr (- t) \<le> 2 * c"
    and "2 powr (- t) - 2 powr (- y) \<le> c" by (simp_all add: c_def)
  ultimately show ?thesis by linarith
next
  case False
  then have big: "2 ^ 51 < t" by simp
  have "(t + 1 / 1000) / 2 ^ 53 \<le> t / 2" using big by simp
  with assms(2) have "t / 2 \<le> y" by linarith
  with big have y: "53 \<le> y" and t: "53 \<le> t" by simp_all
  have e: "2 powr (- 53) = (1 / 2 ^ 53 :: real)"
    using powr_realpow [of 2 53] by (simp add: powr_minus inverse_eq_divide)
  have "2 powr (- y) \<le> 2 powr (- 53)" using y by (intro powr_mono) simp_all
  moreover have "2 powr (- t) \<le> 2 powr (- 53)" using t by (intro powr_mono) simp_all
  moreover have "0 \<le> 2 powr (- y)" "0 \<le> 2 powr (- t)" by simp_all
  moreover have "(1 / 2 ^ 53 :: real) \<le> 3 / 2 ^ 53" by simp
  ultimately show ?thesis unfolding e by linarith
qed

lemma accurate_pow2_fl: "accurate_pow2 (\<lambda>y. fl (2 powr y))"
  unfolding accurate_pow2_def
proof (intro allI impI conjI)
  fix y :: real assume y: "y \<le> 0"
  have p0: "0 \<le> 2 powr y" by simp
  have p1: "2 powr y \<le> 1" using powr_mono [of y 0 2] y by simp
  show "0 \<le> fl (2 powr y)" using p0 by (rule fl_nonneg)
  show "fl (2 powr y) \<le> 1" using fl_mono [OF p1] by (simp add: fl_1)
  have "\<bar>fl (2 powr y) - 2 powr y\<bar> \<le> 1 / 2 ^ 53"
    using p0 p1 pow2_small by (intro fl_abs_error) simp_all
  then show "\<bar>fl (2 powr y) - 2 powr y\<bar> \<le> 2 / 2 ^ 53" by simp
qed


section \<open>Rank: auxiliary facts\<close>

lemma percentile_rank_in:
  "percentile (rank_in A p) = percentile_of_terms A (weighted_terms A p)"
  by (simp add: rank_in_def Let_def percentile_of_terms_def weighted_terms_def)

lemma level_rank_in: "level (rank_in A p) = level_for (percentile (rank_in A p))"
  by (simp add: rank_in_def level_for_def Let_def)

lemma foldl_plus_in_mono:
  assumes "monotone_rounding A" and "list_all2 (\<le>) ts us" and "a \<le> b"
  shows "foldl (plus_in A) a ts \<le> foldl (plus_in A) b us"
  using assms(2,3)
proof (induction ts us arbitrary: a b rule: list_all2_induct)
  case Nil
  then show ?case by simp
next
  case (Cons t ts u us)
  have "plus_in A a t \<le> plus_in A b u"
    using assms(1) Cons.hyps(1) Cons.prems by (simp add: plus_in_def monotone_rounding_def)
  then show ?case using Cons.IH by simp
qed

lemma percentile_of_terms_antimono:
  assumes "monotone_rounding A" and "list_all2 (\<le>) ts us" and "ts \<noteq> []"
  shows "percentile_of_terms A us \<le> percentile_of_terms A ts"
proof -
  from assms(2,3) obtain t ts' u us' where ts: "ts = t # ts'" and us: "us = u # us'"
    and tu: "t \<le> u" and rest: "list_all2 (\<le>) ts' us'"
    by (cases ts; cases us) auto
  have "foldl (plus_in A) t ts' \<le> foldl (plus_in A) u us'"
    using assms(1) rest tu by (rule foldl_plus_in_mono)
  then have "divide_in A (foldl (plus_in A) t ts') 12 \<le> divide_in A (foldl (plus_in A) u us') 12"
    using assms(1) by (simp add: divide_in_def monotone_rounding_def divide_right_mono)
  then have "minus_in A 1 (divide_in A (foldl (plus_in A) u us') 12)
      \<le> minus_in A 1 (divide_in A (foldl (plus_in A) t ts') 12)"
    using assms(1) by (simp add: minus_in_def monotone_rounding_def)
  then show ?thesis
    using assms(1) by (simp add: percentile_of_terms_def ts us times_in_def monotone_rounding_def)
qed

lemma exponentialCDF_mono:
  assumes "monotone_rounding A" and "monotone_pow2 A" and "x \<le> y"
  shows "exponentialCDF A x \<le> exponentialCDF A y"
proof -
  from assms(3) have "pow2 A (- y) \<le> pow2 A (- x)"
    using assms(2) by (simp add: monotone_pow2_def)
  then show ?thesis using assms(1) by (simp add: exponentialCDF_def minus_in_def monotone_rounding_def)
qed

lemma exponential_term_mono:
  assumes "monotone_rounding A" and "monotone_pow2 A" and "x \<le> y" and "0 < m" and "0 \<le> w"
  shows "times_in A w (exponentialCDF A (divide_in A x m))
      \<le> times_in A w (exponentialCDF A (divide_in A y m))"
proof -
  have "divide_in A x m \<le> divide_in A y m"
    using assms(1,3,4) by (simp add: divide_in_def monotone_rounding_def divide_right_mono)
  then have "exponentialCDF A (divide_in A x m) \<le> exponentialCDF A (divide_in A y m)"
    using assms(1,2) by (intro exponentialCDF_mono)
  then show ?thesis
    using assms(1,5) by (simp add: times_in_def monotone_rounding_def mult_left_mono)
qed

lemma logNormalCDF_exact_mono:
  "0 \<le> x \<Longrightarrow> x \<le> y \<Longrightarrow> logNormalCDF exact_reals x \<le> logNormalCDF exact_reals y"
  by (simp add: logNormalCDF_def divide_in_def plus_in_def exact_reals_def field_simps)

lemma monotone_exact: "monotone_rounding exact_reals" "monotone_pow2 exact_reals"
  by (simp_all add: monotone_rounding_def monotone_pow2_def exact_reals_def)

lemma monotone_engine: "monotone_rounding (engine pw)"
  by (simp add: monotone_rounding_def engine_def fl_mono)

lemma monotone_js_doubles: "monotone_rounding js_doubles" "monotone_pow2 js_doubles"
  by (simp_all add: monotone_rounding_def monotone_pow2_def js_doubles_def fl_mono)

lemma raises_count_input_le:
  assumes "raises_count_input p q"
  shows "all_commits q = all_commits p \<and> totalCommits p \<le> totalCommits q \<and> prs p \<le> prs q \<and>
         issues p \<le> issues q \<and> reviews p \<le> reviews q \<and> stars q = stars p \<and>
         followers q = followers p"
proof -
  let ?G = "\<lambda>q. all_commits q = all_commits p \<and> totalCommits p \<le> totalCommits q \<and> prs p \<le> prs q \<and>
         issues p \<le> issues q \<and> reviews p \<le> reviews q \<and> stars q = stars p \<and>
         followers q = followers p"
  have 1: "totalCommits p \<le> v \<Longrightarrow> ?G (p\<lparr>totalCommits := v\<rparr>)" for v by simp
  have 2: "prs p \<le> v \<Longrightarrow> ?G (p\<lparr>prs := v\<rparr>)" for v by simp
  have 3: "issues p \<le> v \<Longrightarrow> ?G (p\<lparr>issues := v\<rparr>)" for v by simp
  have 4: "reviews p \<le> v \<Longrightarrow> ?G (p\<lparr>reviews := v\<rparr>)" for v by simp
  from assms consider
      "totalCommits p \<le> totalCommits q" "q = p\<lparr>totalCommits := totalCommits q\<rparr>"
    | "prs p \<le> prs q" "q = p\<lparr>prs := prs q\<rparr>"
    | "issues p \<le> issues q" "q = p\<lparr>issues := issues q\<rparr>"
    | "reviews p \<le> reviews q" "q = p\<lparr>reviews := reviews q\<rparr>"
    unfolding raises_count_input_def by blast
  then show ?thesis
  proof cases
    case 1 from 1(1) [THEN \<open>\<And>v. totalCommits p \<le> v \<Longrightarrow> ?G (p\<lparr>totalCommits := v\<rparr>)\<close>] show ?thesis
      unfolding 1(2) [symmetric] .
  next
    case 2 from 2(1) [THEN \<open>\<And>v. prs p \<le> v \<Longrightarrow> ?G (p\<lparr>prs := v\<rparr>)\<close>] show ?thesis
      unfolding 2(2) [symmetric] .
  next
    case 3 from 3(1) [THEN \<open>\<And>v. issues p \<le> v \<Longrightarrow> ?G (p\<lparr>issues := v\<rparr>)\<close>] show ?thesis
      unfolding 3(2) [symmetric] .
  next
    case 4 from 4(1) [THEN \<open>\<And>v. reviews p \<le> v \<Longrightarrow> ?G (p\<lparr>reviews := v\<rparr>)\<close>] show ?thesis
      unfolding 4(2) [symmetric] .
  qed
qed

lemma raises_one_input_le:
  assumes "raises_one_input p q"
  shows "all_commits q = all_commits p \<and> totalCommits p \<le> totalCommits q \<and> prs p \<le> prs q \<and>
         issues p \<le> issues q \<and> reviews p \<le> reviews q \<and> stars p \<le> stars q \<and>
         followers p \<le> followers q"
proof -
  let ?G = "\<lambda>q. all_commits q = all_commits p \<and> totalCommits p \<le> totalCommits q \<and> prs p \<le> prs q \<and>
         issues p \<le> issues q \<and> reviews p \<le> reviews q \<and> stars p \<le> stars q \<and>
         followers p \<le> followers q"
  have 5: "stars p \<le> v \<Longrightarrow> ?G (p\<lparr>stars := v\<rparr>)" for v by simp
  have 6: "followers p \<le> v \<Longrightarrow> ?G (p\<lparr>followers := v\<rparr>)" for v by simp
  from assms consider "raises_count_input p q"
    | "stars p \<le> stars q" "q = p\<lparr>stars := stars q\<rparr>"
    | "followers p \<le> followers q" "q = p\<lparr>followers := followers q\<rparr>"
    unfolding raises_one_input_def by blast
  then show ?thesis
  proof cases
    case 1 from raises_count_input_le [OF 1] show ?thesis by simp
  next
    case 2 from 2(1) [THEN \<open>\<And>v. stars p \<le> v \<Longrightarrow> ?G (p\<lparr>stars := v\<rparr>)\<close>] show ?thesis
      unfolding 2(2) [symmetric] .
  next
    case 3 from 3(1) [THEN \<open>\<And>v. followers p \<le> v \<Longrightarrow> ?G (p\<lparr>followers := v\<rparr>)\<close>] show ?thesis
      unfolding 3(2) [symmetric] .
  qed
qed

lemma percentile_antimono_counts:
  assumes "monotone_rounding A" and "monotone_pow2 A" and "raises_count_input p q"
  shows "percentile (rank_in A q) \<le> percentile (rank_in A p)"
proof -
  from raises_count_input_le [OF assms(3)]
  have ac: "all_commits q = all_commits p" and c: "totalCommits p \<le> totalCommits q"
    and r: "prs p \<le> prs q" and i: "issues p \<le> issues q" and v: "reviews p \<le> reviews q"
    and s: "stars q = stars p" and f: "followers q = followers p" by simp_all
  have "list_all2 (\<le>) (weighted_terms A p) (weighted_terms A q)"
    unfolding weighted_terms_def ac s f
    using exponential_term_mono [OF assms(1,2) c, of "if all_commits p then 1000 else 250" 2]
      exponential_term_mono [OF assms(1,2) r, of 50 3]
      exponential_term_mono [OF assms(1,2) i, of 25 1]
      exponential_term_mono [OF assms(1,2) v, of 2 1]
    by simp
  then show ?thesis
    unfolding percentile_rank_in
    by (intro percentile_of_terms_antimono assms(1)) (simp_all add: weighted_terms_def)
qed

lemma percentile_antimono_exact:
  assumes "nonneg_inputs p" and "raises_one_input p q"
  shows "percentile (rank_in exact_reals q) \<le> percentile (rank_in exact_reals p)"
proof -
  from raises_one_input_le [OF assms(2)]
  have ac: "all_commits q = all_commits p" and c: "totalCommits p \<le> totalCommits q"
    and r: "prs p \<le> prs q" and i: "issues p \<le> issues q" and v: "reviews p \<le> reviews q"
    and s: "stars p \<le> stars q" and f: "followers p \<le> followers q" by simp_all
  from assms(1) have s0: "0 \<le> stars p" and f0: "0 \<le> followers p" by (simp_all add: nonneg_inputs_def)
  have ls: "times_in exact_reals 4 (logNormalCDF exact_reals (divide_in exact_reals (stars p) 50))
      \<le> times_in exact_reals 4 (logNormalCDF exact_reals (divide_in exact_reals (stars q) 50))"
    using logNormalCDF_exact_mono [of "stars p / 50" "stars q / 50"] s0 s
    by (simp add: times_in_def divide_in_def exact_reals_def divide_right_mono)
  have lf: "times_in exact_reals 1 (logNormalCDF exact_reals (divide_in exact_reals (followers p) 10))
      \<le> times_in exact_reals 1 (logNormalCDF exact_reals (divide_in exact_reals (followers q) 10))"
    using logNormalCDF_exact_mono [of "followers p / 10" "followers q / 10"] f0 f
    by (simp add: times_in_def divide_in_def exact_reals_def divide_right_mono)
  have "list_all2 (\<le>) (weighted_terms exact_reals p) (weighted_terms exact_reals q)"
    unfolding weighted_terms_def ac
    using exponential_term_mono [OF monotone_exact c, of "if all_commits p then 1000 else 250" 2]
      exponential_term_mono [OF monotone_exact r, of 50 3]
      exponential_term_mono [OF monotone_exact i, of 25 1]
      exponential_term_mono [OF monotone_exact v, of 2 1] ls lf
    by simp
  then show ?thesis
    unfolding percentile_rank_in
    by (intro percentile_of_terms_antimono monotone_exact) (simp_all add: weighted_terms_def)
qed

lemma quality_level_for:
  "quality_index (level_for pct) =
     (if pct \<le> 1 then 0 else if pct \<le> 12.5 then 1 else if pct \<le> 25 then 2
      else if pct \<le> 37.5 then 3 else if pct \<le> 50 then 4 else if pct \<le> 62.5 then 5
      else if pct \<le> 75 then 6 else if pct \<le> 87.5 then 7 else 8)"
  by (simp add: quality_index_def level_for_def findIndex_def THRESHOLDS_def LEVELS_def
      at_index_def nullish_def)

lemma quality_level_for_mono: "a \<le> b \<Longrightarrow> quality_index (level_for a) \<le> quality_index (level_for b)"
  unfolding quality_level_for by (simp split: if_splits)

lemma level_for_spec: "level_for pct = spec_level pct"
  by (simp add: spec_level_def level_for_def findIndex_def THRESHOLDS_def LEVELS_def
      at_index_def nullish_def)

lemma percentile_exact_spec:
  "nonneg_inputs p \<Longrightarrow> percentile (rank_in exact_reals p) = spec_percentile p"
  unfolding percentile_rank_in percentile_of_terms_def weighted_terms_def spec_percentile_def
    spec_score_def spec_f_def spec_g_def exponentialCDF_def logNormalCDF_def nonneg_inputs_def
    plus_in_def minus_in_def times_in_def divide_in_def exact_reals_def
  by (simp add: field_simps)

lemma rank_in_zero:
  assumes "pw 0 = 1"
  shows "rank_in (engine pw) \<lparr>all_commits = ac, totalCommits = 0, prs = 0, issues = 0,
            reviews = 0, stars = 0, followers = 0, repos = r\<rparr> = \<lparr>level = ''C'', percentile = 100\<rparr>"
  using assms
  by (simp add: rank_in_def engine_def plus_in_def minus_in_def times_in_def divide_in_def
      exponentialCDF_def logNormalCDF_def fl_1 fl_100 THRESHOLDS_def LEVELS_def findIndex_def
      at_index_def nullish_def)

lemma js_doubles_engine: "js_doubles = engine (\<lambda>y. fl (2 powr y))"
  by (simp add: js_doubles_def engine_def)

lemma findIndex_from_cong:
  "(\<forall>x\<in>set xs. P x = Q x) \<Longrightarrow> findIndex_from P xs i = findIndex_from Q xs i"
  by (induction xs arbitrary: i) simp_all

lemma level_for_stable:
  assumes "\<bar>a - b\<bar> \<le> e" and "\<forall>t\<in>set THRESHOLDS. e < \<bar>b - t\<bar>"
  shows "level_for a = level_for b"
proof -
  have "\<forall>t\<in>set THRESHOLDS. (a \<le> t) = (b \<le> t)"
  proof
    fix t assume "t \<in> set THRESHOLDS"
    with assms(2) have "e < \<bar>b - t\<bar>" by blast
    with assms(1) show "(a \<le> t) = (b \<le> t)" by linarith
  qed
  then have "findIndex (\<lambda>t. a \<le> t) THRESHOLDS = findIndex (\<lambda>t. b \<le> t) THRESHOLDS"
    unfolding findIndex_def by (rule findIndex_from_cong)
  then show ?thesis by (simp only: level_for_def)
qed

lemma quality_level_for_near_mono:
  assumes "a \<le> b + 1 / 10 ^ 12"
  shows "quality_index (level_for a) \<le> quality_index (level_for b) + 1"
  using assms unfolding quality_level_for by (simp split: if_splits)

lemma raises_one_input_nonneg:
  assumes "nonneg_inputs p" and "raises_one_input p q"
  shows "nonneg_inputs q"
  using raises_one_input_le [OF assms(2)] assms(1) unfolding nonneg_inputs_def by linarith


section \<open>Rank: rounding error of the percentile\<close>

text \<open>
  For non-negative inputs each of the six transformed inputs is within a few units of
  \<open>2^-53\<close> of its exact value, and so is every later intermediate result; the
  percentile ends within \<open>2028 / 2^53\<close> of the reference percentile.
\<close>

lemma quotient_error:
  assumes "0 \<le> x" and "1 \<le> m"
  shows "0 \<le> x / m" and "0 \<le> fl (x / m)"
    and "\<bar>fl (x / m) - x / m\<bar> \<le> (x / m + 1 / 1000) / 2 ^ 53"
proof -
  show t0: "0 \<le> x / m" using assms by simp
  show "0 \<le> fl (x / m)" using t0 by (rule fl_nonneg)
  show "\<bar>fl (x / m) - x / m\<bar> \<le> (x / m + 1 / 1000) / 2 ^ 53"
  proof (cases "2 powi (- 1022) \<le> x / m")
    case True
    have ab: "\<bar>x / m\<bar> = x / m" using t0 by (rule abs_of_nonneg)
    with True have "2 powi (- 1022) \<le> \<bar>x / m\<bar>" by linarith
    from fl_error [OF this] have "\<bar>fl (x / m) - x / m\<bar> \<le> (x / m) / 2 ^ 53"
      by (simp only: ab)
    also have "\<dots> \<le> (x / m + 1 / 1000) / 2 ^ 53" by (intro divide_right_mono) simp_all
    finally show ?thesis .
  next
    case False
    have ab: "\<bar>x / m\<bar> = x / m" using t0 by (rule abs_of_nonneg)
    with False have "\<bar>x / m\<bar> \<le> 2 powi (- 1022)" by linarith
    then have "\<bar>fl (x / m) - x / m\<bar> \<le> 2 powi (- 1022) / 2 ^ 53"
      by (rule fl_abs_error) (rule order_refl)
    also have "\<dots> \<le> (x / m + 1 / 1000) / 2 ^ 53"
    proof (rule divide_right_mono)
      show "2 powi (- 1022) \<le> x / m + 1 / 1000" using pow2_small t0 by linarith
      show "(0::real) \<le> 2 ^ 53" by simp
    qed
    finally show ?thesis .
  qed
qed

lemma exponential_error:
  assumes "0 \<le> x" and "1 \<le> m" and "accurate_pow2 pw"
  shows "\<bar>exponentialCDF (engine pw) (divide_in (engine pw) x m) - (1 - 2 powr (- x / m))\<bar>
           \<le> 6 / 2 ^ 53"
    and "0 \<le> exponentialCDF (engine pw) (divide_in (engine pw) x m)"
    and "exponentialCDF (engine pw) (divide_in (engine pw) x m) \<le> 1"
proof -
  define t where "t = x / m"
  define y where "y = fl t"
  define v where "v = 1 - pw (- y)"
  note q = quotient_error [OF assms(1,2), folded t_def]
  have y0: "- y \<le> 0" using q(2) by (simp add: y_def)
  from assms(3) y0 have pw: "0 \<le> pw (- y)" "pw (- y) \<le> 1"
    "\<bar>pw (- y) - 2 powr (- y)\<bar> \<le> 2 / 2 ^ 53"
    unfolding accurate_pow2_def by blast+
  have pp: "\<bar>2 powr (- y) - 2 powr (- t)\<bar> \<le> 3 / 2 ^ 53"
    using q(1) q(3) [folded y_def] by (rule pow_perturb)
  have v01: "0 \<le> v" "v \<le> 1" using pw by (simp_all add: v_def)
  have "\<bar>fl v - v\<bar> \<le> 1 / 2 ^ 53"
    using v01 pow2_small by (intro fl_abs_error) simp_all
  moreover have "\<bar>v - (1 - 2 powr (- t))\<bar> \<le> 5 / 2 ^ 53"
    using pw(3) pp unfolding v_def by linarith
  ultimately have "\<bar>fl v - (1 - 2 powr (- t))\<bar> \<le> 6 / 2 ^ 53" by linarith
  moreover have e: "exponentialCDF (engine pw) (divide_in (engine pw) x m) = fl v"
    by (simp add: exponentialCDF_def divide_in_def minus_in_def engine_def v_def y_def t_def)
  moreover have "- x / m = - t" by (simp add: t_def)
  ultimately show "\<bar>exponentialCDF (engine pw) (divide_in (engine pw) x m) - (1 - 2 powr (- x / m))\<bar>
           \<le> 6 / 2 ^ 53" by simp
  show "0 \<le> exponentialCDF (engine pw) (divide_in (engine pw) x m)"
    unfolding e using v01(1) by (rule fl_nonneg)
  show "exponentialCDF (engine pw) (divide_in (engine pw) x m) \<le> 1"
    unfolding e using fl_mono [OF v01(2)] by (simp add: fl_1)
qed

lemma logNormal_error:
  assumes "0 \<le> x" and "1 \<le> m"
  shows "\<bar>logNormalCDF (engine pw) (divide_in (engine pw) x m) - x / (m + x)\<bar> \<le> 7 / 2 ^ 53"
    and "0 \<le> logNormalCDF (engine pw) (divide_in (engine pw) x m)"
    and "logNormalCDF (engine pw) (divide_in (engine pw) x m) \<le> 2"
proof -
  define u :: real where "u = 1 / 2 ^ 53"
  define t where "t = x / m"
  define z where "z = fl t"
  define s where "s = 1 + z"
  define w where "w = fl s"
  have u: "0 < u" "u \<le> 1 / 2" "u \<le> 1 / 5" by (simp_all add: u_def)
  note q = quotient_error [OF assms(1,2), folded t_def]
  have t0: "0 \<le> t" by (rule q(1))
  have z0: "0 \<le> z" using q(2) by (simp add: z_def)
  have zt: "\<bar>z - t\<bar> \<le> u * t + u / 1000"
    using q(3) by (simp add: z_def u_def add_divide_distrib)
  have s1: "1 \<le> s" using z0 by (simp add: s_def)
  have "2 powi (- 1022) \<le> \<bar>s\<bar>" using s1 pow2_small by simp
  from fl_error [OF this] have ws: "\<bar>w - s\<bar> \<le> u * s" using s1 by (simp add: w_def u_def)
  have "s - u * s \<le> w" using ws by linarith
  moreover have "u * s \<le> 1 / 2 * s" using u(2) s1 by (intro mult_right_mono) simp_all
  ultimately have wlow: "s / 2 \<le> w" by simp
  then have wpos: "0 < w" using s1 by linarith
  have tpos: "0 < 1 + t" using t0 by simp
  have half: "1 / 2 \<le> w * (1 + t)"
  proof -
    have "1 / 2 * 1 \<le> w * (1 + t)" using wlow s1 t0 by (intro mult_mono) simp_all
    then show ?thesis by simp
  qed
  have num: "z * (1 + t) - t * w = (z - t) + t * (s - w)" by (simp add: s_def algebra_simps)
  have "\<bar>t * (s - w)\<bar> = t * \<bar>w - s\<bar>" using t0 by (simp add: abs_mult abs_minus_commute)
  also have "\<dots> \<le> t * (u * s)" using ws t0 by (intro mult_left_mono)
  finally have "\<bar>z * (1 + t) - t * w\<bar> \<le> u * t + u / 1000 + t * (u * s)"
    unfolding num using zt by linarith
  also have "\<dots> = u * (t * (1 + s)) + u / 1000" by (simp add: algebra_simps)
  also have "u * (t * (1 + s)) \<le> u * (2 * s * (1 + t))"
  proof (intro mult_left_mono)
    have "t * 1 \<le> t * s" using t0 s1 by (intro mult_left_mono)
    then show "t * (1 + s) \<le> 2 * s * (1 + t)" using s1 t0 by (simp add: algebra_simps)
    show "0 \<le> u" using u(1) by simp
  qed
  also have "u * (2 * s * (1 + t)) = 4 * u * (s / 2 * (1 + t))" by simp
  also have "4 * u * (s / 2 * (1 + t)) \<le> 4 * u * (w * (1 + t))"
    using wlow tpos u(1) by (intro mult_left_mono mult_right_mono) simp_all
  also have "u / 1000 \<le> u * (w * (1 + t))"
  proof -
    have "u * (1 / 1000) \<le> u * (w * (1 + t))" using half u(1) by (intro mult_left_mono) simp_all
    then show ?thesis by simp
  qed
  finally have nb: "\<bar>z * (1 + t) - t * w\<bar> \<le> 5 * u * (w * (1 + t))" by (simp add: algebra_simps)
  have "z / w - t / (1 + t) = (z * (1 + t) - t * w) / (w * (1 + t))"
    using wpos tpos by (simp add: field_simps)
  then have "\<bar>z / w - t / (1 + t)\<bar> = \<bar>z * (1 + t) - t * w\<bar> / (w * (1 + t))"
    using wpos tpos by (simp add: abs_mult)
  also have "\<dots> \<le> 5 * u"
    using nb wpos tpos by (simp add: pos_divide_le_eq)
  finally have d: "\<bar>z / w - t / (1 + t)\<bar> \<le> 5 * u" .
  have g01: "0 \<le> t / (1 + t)" "t / (1 + t) \<le> 1" using t0 by simp_all
  have zw0: "0 \<le> z / w" using z0 wpos by simp
  have zw2: "z / w \<le> 2" using d g01 u by linarith
  have "\<bar>fl (z / w) - z / w\<bar> \<le> 2 / 2 ^ 53"
    using zw0 zw2 pow2_small by (intro fl_abs_error) simp_all
  with d have "\<bar>fl (z / w) - t / (1 + t)\<bar> \<le> 7 / 2 ^ 53" unfolding u_def by linarith
  moreover have e: "logNormalCDF (engine pw) (divide_in (engine pw) x m) = fl (z / w)"
    by (simp add: logNormalCDF_def divide_in_def plus_in_def engine_def w_def s_def z_def t_def)
  moreover have "x / (m + x) = t / (1 + t)"
    using assms(2) by (simp add: t_def field_simps)
  ultimately show "\<bar>logNormalCDF (engine pw) (divide_in (engine pw) x m) - x / (m + x)\<bar> \<le> 7 / 2 ^ 53"
    by simp
  show "0 \<le> logNormalCDF (engine pw) (divide_in (engine pw) x m)"
    unfolding e using zw0 by (rule fl_nonneg)
  show "logNormalCDF (engine pw) (divide_in (engine pw) x m) \<le> 2"
    unfolding e using fl_mono [OF zw2] by (simp add: fl_2)
qed

lemma weighted_error:
  assumes "\<bar>g' - g\<bar> \<le> e / 2 ^ 53" and "0 \<le> g'" and "g' \<le> b" and "1 \<le> w" and "1 \<le> b"
  shows "\<bar>fl (w * g') - w * g\<bar> \<le> (w * b + w * e) / 2 ^ 53"
proof -
  have "\<bar>w * g'\<bar> = w * g'" using assms(2,4) by simp
  also have "\<dots> \<le> w * b" using assms(3,4) by (intro mult_left_mono) simp_all
  finally have 1: "\<bar>w * g'\<bar> \<le> w * b" .
  have "1 * 1 \<le> w * b" using assms(4,5) by (intro mult_mono) simp_all
  then have 2: "2 powi (- 1022) \<le> w * b" using pow2_small by linarith
  have r: "\<bar>fl (w * g') - w * g'\<bar> \<le> w * b / 2 ^ 53" using 1 2 by (rule fl_abs_error)
  have "\<bar>w * g' - w * g\<bar> = w * \<bar>g' - g\<bar>"
    using assms(4) by (simp add: abs_mult right_diff_distrib [symmetric])
  also have "\<dots> \<le> w * (e / 2 ^ 53)" using assms(1,4) by (intro mult_left_mono) simp_all
  finally have "\<bar>w * g' - w * g\<bar> \<le> w * e / 2 ^ 53" by simp
  with r have "\<bar>fl (w * g') - w * g\<bar> \<le> w * b / 2 ^ 53 + w * e / 2 ^ 53" by linarith
  then show ?thesis by (simp add: add_divide_distrib)
qed

lemma plus_error:
  assumes "\<bar>a' - a\<bar> \<le> ea / 2 ^ 53" and "\<bar>b' - b\<bar> \<le> eb / 2 ^ 53"
    and "0 \<le> a" and "0 \<le> b" and "a + b \<le> 12" and "ea + eb \<le> 2 ^ 53"
  shows "\<bar>fl (a' + b') - (a + b)\<bar> \<le> (ea + eb + 16) / 2 ^ 53"
proof -
  have "(ea + eb) / 2 ^ 53 = ea / 2 ^ 53 + eb / (2 ^ 53 :: real)" by (rule add_divide_distrib)
  with assms(1,2) have e: "\<bar>(a' + b') - (a + b)\<bar> \<le> (ea + eb) / 2 ^ 53" by linarith
  moreover have "(ea + eb) / 2 ^ 53 \<le> 1" using assms(6) by simp
  ultimately have "\<bar>a' + b'\<bar> \<le> 16" using assms(3,4,5) by linarith
  moreover have "(2::real) powi (- 1022) \<le> 16" using pow2_small by linarith
  ultimately have "\<bar>fl (a' + b') - (a' + b')\<bar> \<le> 16 / 2 ^ 53" by (rule fl_abs_error)
  with e have "\<bar>fl (a' + b') - (a + b)\<bar> \<le> (ea + eb) / 2 ^ 53 + 16 / 2 ^ 53" by linarith
  then show ?thesis by (simp add: add_divide_distrib)
qed

lemma exponential_range:
  fixes x m :: real
  assumes "0 \<le> x" and "0 < m"
  shows "0 \<le> 1 - 2 powr (- x / m)" and "1 - 2 powr (- x / m) \<le> 1"
proof -
  have "- x / m \<le> 0" using assms by (simp add: divide_nonpos_pos)
  then have "2 powr (- x / m) \<le> 2 powr 0" by (intro powr_mono) simp_all
  then show "0 \<le> 1 - 2 powr (- x / m)" by simp
  show "1 - 2 powr (- x / m) \<le> 1" by simp
qed

lemma logNormal_range:
  fixes x m :: real
  assumes "0 \<le> x" and "0 < m"
  shows "0 \<le> x / (m + x)" and "x / (m + x) \<le> 1"
  using assms by simp_all

lemma percentile_error:
  assumes "nonneg_inputs p" and "accurate_pow2 pw"
  shows "\<bar>percentile (rank_in (engine pw) p) - spec_percentile p\<bar> \<le> 2028 / 2 ^ 53"
proof -
  define A where "A = engine pw"
  have rnd: "rnd A = fl" by (simp add: A_def engine_def)
  define m :: real where "m = (if all_commits p then 1000 else 250)"
  have m: "1 \<le> m" "m \<le> 1000" "0 < m" by (simp_all add: m_def)
  from assms(1) have n: "0 \<le> totalCommits p" "0 \<le> prs p" "0 \<le> issues p"
    "0 \<le> reviews p" "0 \<le> stars p" "0 \<le> followers p"
    unfolding nonneg_inputs_def by blast+
  define G1' where "G1' = exponentialCDF A (divide_in A (totalCommits p) m)"
  define G2' where "G2' = exponentialCDF A (divide_in A (prs p) 50)"
  define G3' where "G3' = exponentialCDF A (divide_in A (issues p) 25)"
  define G4' where "G4' = exponentialCDF A (divide_in A (reviews p) 2)"
  define G5' where "G5' = logNormalCDF A (divide_in A (stars p) 50)"
  define G6' where "G6' = logNormalCDF A (divide_in A (followers p) 10)"
  define G1 where "G1 = 1 - 2 powr (- totalCommits p / m)"
  define G2 where "G2 = 1 - 2 powr (- prs p / 50)"
  define G3 where "G3 = 1 - 2 powr (- issues p / 25)"
  define G4 where "G4 = 1 - 2 powr (- reviews p / 2)"
  define G5 where "G5 = stars p / (50 + stars p)"
  define G6 where "G6 = followers p / (10 + followers p)"
  have e1: "\<bar>G1' - G1\<bar> \<le> 6 / 2 ^ 53" "0 \<le> G1'" "G1' \<le> 1"
    unfolding G1'_def G1_def A_def by (rule exponential_error [OF n(1) m(1) assms(2)])+
  have e2: "\<bar>G2' - G2\<bar> \<le> 6 / 2 ^ 53" "0 \<le> G2'" "G2' \<le> 1"
    unfolding G2'_def G2_def A_def by (rule exponential_error [OF n(2) _ assms(2)]; simp)+
  have e3: "\<bar>G3' - G3\<bar> \<le> 6 / 2 ^ 53" "0 \<le> G3'" "G3' \<le> 1"
    unfolding G3'_def G3_def A_def by (rule exponential_error [OF n(3) _ assms(2)]; simp)+
  have e4: "\<bar>G4' - G4\<bar> \<le> 6 / 2 ^ 53" "0 \<le> G4'" "G4' \<le> 1"
    unfolding G4'_def G4_def A_def by (rule exponential_error [OF n(4) _ assms(2)]; simp)+
  have e5: "\<bar>G5' - G5\<bar> \<le> 7 / 2 ^ 53" "0 \<le> G5'" "G5' \<le> 2"
    unfolding G5'_def G5_def A_def by (rule logNormal_error [OF n(5)]; simp)+
  have e6: "\<bar>G6' - G6\<bar> \<le> 7 / 2 ^ 53" "0 \<le> G6'" "G6' \<le> 2"
    unfolding G6'_def G6_def A_def by (rule logNormal_error [OF n(6)]; simp)+
  have r1: "0 \<le> G1" "G1 \<le> 1" unfolding G1_def by (rule exponential_range [OF n(1) m(3)])+
  have r2: "0 \<le> G2" "G2 \<le> 1" unfolding G2_def by (rule exponential_range [OF n(2)]; simp)+
  have r3: "0 \<le> G3" "G3 \<le> 1" unfolding G3_def by (rule exponential_range [OF n(3)]; simp)+
  have r4: "0 \<le> G4" "G4 \<le> 1" unfolding G4_def by (rule exponential_range [OF n(4)]; simp)+
  have r5: "0 \<le> G5" "G5 \<le> 1" unfolding G5_def by (rule logNormal_range [OF n(5)]; simp)+
  have r6: "0 \<le> G6" "G6 \<le> 1" unfolding G6_def by (rule logNormal_range [OF n(6)]; simp)+
  have t1: "\<bar>fl (2 * G1') - 2 * G1\<bar> \<le> 14 / 2 ^ 53"
    using weighted_error [OF e1(1) e1(2) e1(3), of 2] by simp
  have t2: "\<bar>fl (3 * G2') - 3 * G2\<bar> \<le> 21 / 2 ^ 53"
    using weighted_error [OF e2(1) e2(2) e2(3), of 3] by simp
  have t3: "\<bar>fl G3' - G3\<bar> \<le> 7 / 2 ^ 53"
    using weighted_error [OF e3(1) e3(2) e3(3), of 1] by simp
  have t4: "\<bar>fl G4' - G4\<bar> \<le> 7 / 2 ^ 53"
    using weighted_error [OF e4(1) e4(2) e4(3), of 1] by simp
  have t5: "\<bar>fl (4 * G5') - 4 * G5\<bar> \<le> 36 / 2 ^ 53"
    using weighted_error [OF e5(1) e5(2) e5(3), of 4] by simp
  have t6: "\<bar>fl G6' - G6\<bar> \<le> 9 / 2 ^ 53"
    using weighted_error [OF e6(1) e6(2) e6(3), of 1] by simp
  define S1' where "S1' = fl (fl (2 * G1') + fl (3 * G2'))"
  define S2' where "S2' = fl (S1' + fl G3')"
  define S3' where "S3' = fl (S2' + fl G4')"
  define S4' where "S4' = fl (S3' + fl (4 * G5'))"
  define S5' where "S5' = fl (S4' + fl G6')"
  define S where "S = 2 * G1 + 3 * G2 + G3 + G4 + 4 * G5 + G6"
  have s1: "\<bar>S1' - (2 * G1 + 3 * G2)\<bar> \<le> 51 / 2 ^ 53"
    unfolding S1'_def using plus_error [OF t1 t2] r1 r2 by simp
  have s2: "\<bar>S2' - (2 * G1 + 3 * G2 + G3)\<bar> \<le> 74 / 2 ^ 53"
    unfolding S2'_def using plus_error [OF s1 t3] r1 r2 r3 by simp
  have s3: "\<bar>S3' - (2 * G1 + 3 * G2 + G3 + G4)\<bar> \<le> 97 / 2 ^ 53"
    unfolding S3'_def using plus_error [OF s2 t4] r1 r2 r3 r4 by simp
  have s4: "\<bar>S4' - (2 * G1 + 3 * G2 + G3 + G4 + 4 * G5)\<bar> \<le> 149 / 2 ^ 53"
    unfolding S4'_def using plus_error [OF s3 t5] r1 r2 r3 r4 r5 by simp
  have s5: "\<bar>S5' - S\<bar> \<le> 174 / 2 ^ 53"
    unfolding S5'_def S_def using plus_error [OF s4 t6] r1 r2 r3 r4 r5 r6 by simp
  have S: "0 \<le> S" "S \<le> 12" unfolding S_def using r1 r2 r3 r4 r5 r6 by linarith+
  have small: "(174 :: real) / 2 ^ 53 \<le> 1" by simp
  have "\<bar>S5'\<bar> \<le> 13" using s5 S small by linarith
  moreover have "\<bar>S5' / 12\<bar> = \<bar>S5'\<bar> / 12" by simp
  ultimately have "\<bar>S5' / 12\<bar> \<le> 2" by linarith
  then have "\<bar>fl (S5' / 12) - S5' / 12\<bar> \<le> 2 / 2 ^ 53"
    using pow2_small by (intro fl_abs_error) simp_all
  moreover have "\<bar>S5' / 12 - S / 12\<bar> \<le> 15 / 2 ^ 53"
  proof -
    have "S5' / 12 - S / 12 = (S5' - S) / 12" by (simp add: diff_divide_distrib)
    then have "\<bar>S5' / 12 - S / 12\<bar> = \<bar>S5' - S\<bar> / 12" by (simp only: abs_divide abs_numeral)
    also have "\<dots> \<le> 174 / 2 ^ 53 / 12" using s5 by (intro divide_right_mono) simp_all
    also have "\<dots> \<le> 15 / 2 ^ 53" by simp
    finally show ?thesis .
  qed
  ultimately have q: "\<bar>fl (S5' / 12) - S / 12\<bar> \<le> 17 / 2 ^ 53" by linarith
  define q' where "q' = fl (S5' / 12)"
  have small2: "(17 :: real) / 2 ^ 53 \<le> 1 / 100" by simp
  have qr: "0 \<le> S / 12" "S / 12 \<le> 1" using S by simp_all
  have "\<bar>1 - q'\<bar> \<le> 2" using q [folded q'_def] qr small2 by linarith
  then have "\<bar>fl (1 - q') - (1 - q')\<bar> \<le> 2 / 2 ^ 53"
    using pow2_small by (intro fl_abs_error) simp_all
  with q [folded q'_def] have r: "\<bar>fl (1 - q') - (1 - S / 12)\<bar> \<le> 19 / 2 ^ 53" by linarith
  define r' where "r' = fl (1 - q')"
  have small3: "(19 :: real) / 2 ^ 53 \<le> 1 / 100" by simp
  have rb: "\<bar>r'\<bar> \<le> 1 + 1 / 100" using r [folded r'_def] qr small3 by linarith
  have "\<bar>r' * 100\<bar> = \<bar>r'\<bar> * 100" by (simp add: abs_mult)
  also have "\<dots> \<le> 128" using rb by simp
  finally have "\<bar>fl (r' * 100) - r' * 100\<bar> \<le> 128 / 2 ^ 53"
    using pow2_small by (intro fl_abs_error) simp_all
  moreover have "\<bar>r' * 100 - (1 - S / 12) * 100\<bar> \<le> 1900 / 2 ^ 53"
  proof -
    define d where "d = 1 - S / 12"
    have "r' * 100 - d * 100 = (r' - d) * 100" by (simp only: left_diff_distrib)
    then have "\<bar>r' * 100 - d * 100\<bar> = \<bar>r' - d\<bar> * 100"
      by (simp only: abs_mult abs_numeral)
    also have "\<dots> \<le> 19 / 2 ^ 53 * 100"
      using r [folded r'_def d_def] by (intro mult_right_mono) simp_all
    also have "\<dots> = 1900 / 2 ^ 53" by simp
    finally show ?thesis unfolding d_def .
  qed
  ultimately have fin: "\<bar>fl (r' * 100) - (1 - S / 12) * 100\<bar> \<le> 2028 / 2 ^ 53" by linarith
  have code: "percentile (rank_in A p) = fl (r' * 100)"
    unfolding percentile_rank_in percentile_of_terms_def weighted_terms_def
    by (simp add: plus_in_def minus_in_def times_in_def divide_in_def rnd r'_def q'_def S5'_def
        S4'_def S3'_def S2'_def S1'_def G1'_def G2'_def G3'_def G4'_def G5'_def G6'_def m_def)
  have spec: "spec_percentile p = (1 - S / 12) * 100"
    by (simp add: spec_percentile_def spec_score_def spec_f_def spec_g_def S_def G1_def G2_def
        G3_def G4_def G5_def G6_def m_def)
  show ?thesis using fin unfolding code [unfolded A_def] spec .
qed

lemma percentile_close:
  assumes "nonneg_inputs p" and "accurate_pow2 pw"
  shows "\<bar>percentile (rank_in (engine pw) p) - spec_percentile p\<bar> \<le> 1 / 10 ^ 12"
proof -
  have "(2028 :: real) / 2 ^ 53 \<le> 1 / 10 ^ 12" by simp
  with percentile_error [OF assms] show ?thesis by linarith
qed

lemma percentile_near_antimono:
  assumes "nonneg_inputs p" and "raises_one_input p q" and "accurate_pow2 pw"
  shows "percentile (rank_in (engine pw) q) \<le> percentile (rank_in (engine pw) p) + 1 / 10 ^ 12"
proof -
  note q = raises_one_input_nonneg [OF assms(1,2)]
  have "spec_percentile q \<le> spec_percentile p"
    using percentile_antimono_exact [OF assms(1,2)]
    by (simp only: percentile_exact_spec [OF assms(1)] percentile_exact_spec [OF q])
  moreover have "(2 * 2028 :: real) / 2 ^ 53 \<le> 1 / 10 ^ 12" by simp
  ultimately show ?thesis
    using percentile_error [OF assms(1,3)] percentile_error [OF q assms(3)] by linarith
qed


section \<open>Rank: runs in double precision at given inputs\<close>

text \<open>
  Each run is traced through its roundings: a fact \<open>r_k\<close> is one operation, the exact
  result on the left and the double it rounds to on the right. In these runs \<open>2 ** y\<close>
  is taken at \<open>y = 0\<close> and \<open>y = -1\<close> only, where the power is a double.
\<close>

lemma pow2_m1: "fl (2 powr (- 1)) = 1 / 2" by (simp add: powr_minus fl_half field_simps)

lemma rank_stars_838860754:
  "calculateRank \<lparr>all_commits = True, totalCommits = 0, prs = 0, issues = 0, reviews = 0,
      stars = 838860754, followers = 0, repos = None\<rparr>
     = \<lparr>level = ''B-'', percentile = 2345624875827199 / 35184372088832\<rparr>"
proof -
  have r_0: "fl (2251799679467521 / 6755399441055744) = 6004799145246723 / 18014398509481984"
    by (subst fl_eval [where k = "-2"]) (simp_all add: round_even_def)
  have r_1: "fl (12009599364235261 / 18014398509481984) = 3002399841058815 / 4503599627370496"
    by (subst fl_eval [where k = "-1"]) (simp_all add: round_even_def)
  have r_2: "fl (9007198760819753 / 9007199297690664) = 2251799679467521 / 2251799813685248"
    by (subst fl_eval [where k = "-1"]) (simp_all add: round_even_def)
  have r_3: "fl (2251799679467521 / 562949953421312) = 2251799679467521 / 562949953421312"
    by (subst fl_eval [where k = "1"]) (simp_all add: round_even_def)
  have r_4: "fl (75059996026470375 / 1125899906842624) = 2345624875827199 / 35184372088832"
    by (subst fl_eval [where k = "6"]) (simp_all add: round_even_def)
  have r_5: "fl (419430377 / 25) = 9007198760819753 / 536870912"
    by (subst fl_eval [where k = "23"]) (simp_all add: round_even_def)
  have r_6: "fl (9007199297690665 / 536870912) = 1125899912211333 / 67108864"
    by (subst fl_eval [where k = "24"]) (simp_all add: round_even_def)
  show ?thesis
    by (simp add: calculateRank_def rank_in_def js_doubles_def plus_in_def minus_in_def
        times_in_def divide_in_def exponentialCDF_def logNormalCDF_def fl_1 pow2_m1
        THRESHOLDS_def LEVELS_def findIndex_def at_index_def nullish_def
        r_0 r_1 r_2 r_3 r_4 r_5 r_6)
qed

lemma rank_stars_838860755:
  "calculateRank \<lparr>all_commits = True, totalCommits = 0, prs = 0, issues = 0, reviews = 0,
      stars = 838860755, followers = 0, repos = None\<rparr>
     = \<lparr>level = ''B-'', percentile = 279620275 / 4194304\<rparr>"
proof -
  have r_0: "fl (4503599358935041 / 13510798882111488) = 6004799145246721 / 18014398509481984"
    by (subst fl_eval [where k = "-2"]) (simp_all add: round_even_def)
  have r_1: "fl (12009599364235263 / 18014398509481984) = 11184811 / 16777216"
    by (subst fl_eval [where k = "-1"]) (simp_all add: round_even_def)
  have r_2: "fl (3002399590519057 / 3002399769476028) = 4503599358935041 / 4503599627370496"
    by (subst fl_eval [where k = "-1"]) (simp_all add: round_even_def)
  have r_3: "fl (4503599358935041 / 1125899906842624) = 4503599358935041 / 1125899906842624"
    by (subst fl_eval [where k = "1"]) (simp_all add: round_even_def)
  have r_4: "fl (279620275 / 4194304) = 279620275 / 4194304"
    by (subst fl_eval [where k = "6"]) (simp_all add: round_even_def)
  have r_5: "fl (167772151 / 10) = 9007198771557171 / 536870912"
    by (subst fl_eval [where k = "23"]) (simp_all add: round_even_def)
  have r_6: "fl (9007199308428083 / 536870912) = 2251799827107021 / 134217728"
    by (subst fl_eval [where k = "24"]) (simp_all add: round_even_def)
  show ?thesis
    by (simp add: calculateRank_def rank_in_def js_doubles_def plus_in_def minus_in_def
        times_in_def divide_in_def exponentialCDF_def logNormalCDF_def fl_1 pow2_m1
        THRESHOLDS_def LEVELS_def findIndex_def at_index_def nullish_def
        r_0 r_1 r_2 r_3 r_4 r_5 r_6)
qed

lemma rank_stars_below:
  "calculateRank \<lparr>all_commits = True, totalCommits = 1000, prs = 50, issues = 25, reviews = 2,
      stars = 2932031007402663 / 35184372088832, followers = 0, repos = None\<rparr>
     = \<lparr>level = ''B+'', percentile = 50\<rparr>"
proof -
  have r_0: "fl (6755399441055743 / 13510798882111488) = 9007199254740991 / 18014398509481984"
    by (subst fl_eval [where k = "-2"]) (simp_all add: round_even_def)
  have r_1: "fl (1 / 2) = 1 / 2"
    by (subst fl_eval [where k = "-1"]) (simp_all add: round_even_def)
  have r_2: "fl (9007199254740993 / 18014398509481984) = 1 / 2"
    by (subst fl_eval [where k = "-1"]) (simp_all add: round_even_def)
  have r_3: "fl (7505999378950817 / 12009599006321312) = 2814749767106559 / 4503599627370496"
    by (subst fl_eval [where k = "-1"]) (simp_all add: round_even_def)
  have r_4: "fl (3 / 2) = 3 / 2"
    by (subst fl_eval [where k = "0"]) (simp_all add: round_even_def)
  have r_5: "fl (2932031007402663 / 1759218604441600) = 7505999378950817 / 4503599627370496"
    by (subst fl_eval [where k = "0"]) (simp_all add: round_even_def)
  have r_6: "fl (2814749767106559 / 1125899906842624) = 2814749767106559 / 1125899906842624"
    by (subst fl_eval [where k = "1"]) (simp_all add: round_even_def)
  have r_7: "fl (5 / 2) = 5 / 2"
    by (subst fl_eval [where k = "1"]) (simp_all add: round_even_def)
  have r_8: "fl (12009599006321313 / 4503599627370496) = 375299968947541 / 140737488355328"
    by (subst fl_eval [where k = "1"]) (simp_all add: round_even_def)
  have r_9: "fl (3) = 3"
    by (subst fl_eval [where k = "1"]) (simp_all add: round_even_def)
  have r_10: "fl (7 / 2) = 7 / 2"
    by (subst fl_eval [where k = "1"]) (simp_all add: round_even_def)
  have r_11: "fl (6755399441055743 / 1125899906842624) = 6755399441055743 / 1125899906842624"
    by (subst fl_eval [where k = "2"]) (simp_all add: round_even_def)
  have r_12: "fl (50) = 50"
    by (subst fl_eval [where k = "5"]) (simp_all add: round_even_def)
  show ?thesis
    by (simp add: calculateRank_def rank_in_def js_doubles_def plus_in_def minus_in_def
        times_in_def divide_in_def exponentialCDF_def logNormalCDF_def fl_1 pow2_m1
        THRESHOLDS_def LEVELS_def findIndex_def at_index_def nullish_def
        r_0 r_1 r_2 r_3 r_4 r_5 r_6 r_7 r_8 r_9 r_10 r_11 r_12)
qed

lemma rank_stars_above:
  "calculateRank \<lparr>all_commits = True, totalCommits = 1000, prs = 50, issues = 25, reviews = 2,
      stars = 5864062014805327 / 70368744177664, followers = 0, repos = None\<rparr>
     = \<lparr>level = ''B'', percentile = 7036874417766403 / 140737488355328\<rparr>"
proof -
  have r_0: "fl (3377699720527871 / 6755399441055744) = 9007199254740989 / 18014398509481984"
    by (subst fl_eval [where k = "-2"]) (simp_all add: round_even_def)
  have r_1: "fl (1 / 2) = 1 / 2"
    by (subst fl_eval [where k = "-1"]) (simp_all add: round_even_def)
  have r_2: "fl (9007199254740995 / 18014398509481984) = 2251799813685249 / 4503599627370496"
    by (subst fl_eval [where k = "-1"]) (simp_all add: round_even_def)
  have r_3: "fl (7505999378950819 / 12009599006321316) = 5629499534213117 / 9007199254740992"
    by (subst fl_eval [where k = "-1"]) (simp_all add: round_even_def)
  have r_4: "fl (3 / 2) = 3 / 2"
    by (subst fl_eval [where k = "0"]) (simp_all add: round_even_def)
  have r_5: "fl (5864062014805327 / 3518437208883200) = 7505999378950819 / 4503599627370496"
    by (subst fl_eval [where k = "0"]) (simp_all add: round_even_def)
  have r_6: "fl (5629499534213117 / 2251799813685248) = 5629499534213117 / 2251799813685248"
    by (subst fl_eval [where k = "1"]) (simp_all add: round_even_def)
  have r_7: "fl (5 / 2) = 5 / 2"
    by (subst fl_eval [where k = "1"]) (simp_all add: round_even_def)
  have r_8: "fl (12009599006321315 / 4503599627370496) = 3002399751580329 / 1125899906842624"
    by (subst fl_eval [where k = "1"]) (simp_all add: round_even_def)
  have r_9: "fl (3) = 3"
    by (subst fl_eval [where k = "1"]) (simp_all add: round_even_def)
  have r_10: "fl (7 / 2) = 7 / 2"
    by (subst fl_eval [where k = "1"]) (simp_all add: round_even_def)
  have r_11: "fl (3377699720527871 / 562949953421312) = 3377699720527871 / 562949953421312"
    by (subst fl_eval [where k = "2"]) (simp_all add: round_even_def)
  have r_12: "fl (13510798882111485 / 2251799813685248) = 3377699720527871 / 562949953421312"
    by (subst fl_eval [where k = "2"]) (simp_all add: round_even_def)
  have r_13: "fl (56294995342131225 / 1125899906842624) = 7036874417766403 / 140737488355328"
    by (subst fl_eval [where k = "5"]) (simp_all add: round_even_def)
  show ?thesis
    by (simp add: calculateRank_def rank_in_def js_doubles_def plus_in_def minus_in_def
        times_in_def divide_in_def exponentialCDF_def logNormalCDF_def fl_1 pow2_m1
        THRESHOLDS_def LEVELS_def findIndex_def at_index_def nullish_def
        r_0 r_1 r_2 r_3 r_4 r_5 r_6 r_7 r_8 r_9 r_10 r_11 r_12 r_13)
qed

lemma rank_stars_190:
  "calculateRank \<lparr>all_commits = True, totalCommits = 1000, prs = 50, issues = 25, reviews = 2,
      stars = 190, followers = 50, repos = None\<rparr>
     = \<lparr>level = ''B+'', percentile = 2638827906662401 / 70368744177664\<rparr>"
proof -
  have r_0: "fl (3377699720527873 / 9007199254740992) = 3377699720527873 / 9007199254740992"
    by (subst fl_eval [where k = "-2"]) (simp_all add: round_even_def)
  have r_1: "fl (1 / 2) = 1 / 2"
    by (subst fl_eval [where k = "-1"]) (simp_all add: round_even_def)
  have r_2: "fl (8444249301319679 / 13510798882111488) = 5629499534213119 / 9007199254740992"
    by (subst fl_eval [where k = "-1"]) (simp_all add: round_even_def)
  have r_3: "fl (4278419646001971 / 5404319552844595) = 7130699410003285 / 9007199254740992"
    by (subst fl_eval [where k = "-1"]) (simp_all add: round_even_def)
  have r_4: "fl (5 / 6) = 7505999378950827 / 9007199254740992"
    by (subst fl_eval [where k = "-1"]) (simp_all add: round_even_def)
  have r_5: "fl (7505999378950827 / 9007199254740992) = 7505999378950827 / 9007199254740992"
    by (subst fl_eval [where k = "-1"]) (simp_all add: round_even_def)
  have r_6: "fl (3 / 2) = 3 / 2"
    by (subst fl_eval [where k = "0"]) (simp_all add: round_even_def)
  have r_7: "fl (5 / 2) = 5 / 2"
    by (subst fl_eval [where k = "1"]) (simp_all add: round_even_def)
  have r_8: "fl (3) = 3"
    by (subst fl_eval [where k = "1"]) (simp_all add: round_even_def)
  have r_9: "fl (7130699410003285 / 2251799813685248) = 7130699410003285 / 2251799813685248"
    by (subst fl_eval [where k = "1"]) (simp_all add: round_even_def)
  have r_10: "fl (7 / 2) = 7 / 2"
    by (subst fl_eval [where k = "1"]) (simp_all add: round_even_def)
  have r_11: "fl (19 / 5) = 4278419646001971 / 1125899906842624"
    by (subst fl_eval [where k = "1"]) (simp_all add: round_even_def)
  have r_12: "fl (5404319552844595 / 1125899906842624) = 5404319552844595 / 1125899906842624"
    by (subst fl_eval [where k = "2"]) (simp_all add: round_even_def)
  have r_13: "fl (5) = 5"
    by (subst fl_eval [where k = "2"]) (simp_all add: round_even_def)
  have r_14: "fl (6) = 6"
    by (subst fl_eval [where k = "2"]) (simp_all add: round_even_def)
  have r_15: "fl (15011998757901653 / 2251799813685248) = 3752999689475413 / 562949953421312"
    by (subst fl_eval [where k = "2"]) (simp_all add: round_even_def)
  have r_16: "fl (67553994410557435 / 9007199254740992) = 8444249301319679 / 1125899906842624"
    by (subst fl_eval [where k = "2"]) (simp_all add: round_even_def)
  have r_17: "fl (84442493013196825 / 2251799813685248) = 2638827906662401 / 70368744177664"
    by (subst fl_eval [where k = "5"]) (simp_all add: round_even_def)
  show ?thesis
    by (simp add: calculateRank_def rank_in_def js_doubles_def plus_in_def minus_in_def
        times_in_def divide_in_def exponentialCDF_def logNormalCDF_def fl_1 pow2_m1
        THRESHOLDS_def LEVELS_def findIndex_def at_index_def nullish_def
        r_0 r_1 r_2 r_3 r_4 r_5 r_6 r_7 r_8 r_9 r_10 r_11 r_12 r_13 r_14 r_15 r_16 r_17)
qed


section \<open>Rank: monotonicity\<close>






section \<open>Rank: agreement with the reference definition\<close>

text \<open>
  At \<open>totalCommits = 1000\<close>, \<open>prs = 50\<close>, \<open>issues = 25\<close>, \<open>reviews = 2\<close>,
  \<open>stars = 190\<close>, \<open>followers = 50\<close> the reference percentile is exactly 37.5, a
  threshold, and the reference level is \<open>A-\<close>; in double precision
  \<open>calculateRank\<close> returns 37.500000000000014 and the level \<open>B+\<close>.
\<close>

theorem calculateRank_differs_from_reference:
  "nonneg_inputs \<lparr>all_commits = True, totalCommits = 1000, prs = 50, issues = 25, reviews = 2,
      stars = 190, followers = 50, repos = None\<rparr> \<and>
   calculateRank \<lparr>all_commits = True, totalCommits = 1000, prs = 50, issues = 25, reviews = 2,
      stars = 190, followers = 50, repos = None\<rparr>
     = \<lparr>level = ''B+'', percentile = 2638827906662401 / 70368744177664\<rparr> \<and>
   spec_percentile \<lparr>all_commits = True, totalCommits = 1000, prs = 50, issues = 25, reviews = 2,
      stars = 190, followers = 50, repos = None\<rparr> = 75 / 2 \<and>
   spec_level (75 / 2) = ''A-''"
  by (simp add: rank_stars_190 nonneg_inputs_def spec_percentile_def spec_score_def spec_f_def
      spec_g_def powr_minus spec_level_def)


text \<open>
  Claim C2, amended. For non-negative inputs the percentile returned by
  \<open>calculateRank\<close> is within \<open>10^-12\<close> of the percentile of the reference
  definition (transforms \<open>f\<close> and \<open>g\<close> with the medians 1000 or 250, 50, 25, 2, 50,
  10 and the weights 2, 3, 1, 1, 4, 1, the weight-normalised score,
  \<open>(1 - score) * 100\<close>), and the returned level is the reference level whenever the
  reference percentile is farther than \<open>10^-12\<close> from every threshold; the same holds
  for every power function that is accurate to one unit in the last place. In exact real
  arithmetic the expression of \<open>calculateRank\<close> equals the reference, percentile and
  level, for non-negative inputs. For every input, also one whose percentile lies above
  every threshold, the returned level is the one the first-threshold rule with its
  fallback to \<open>C\<close> gives for the returned percentile. All-zero inputs give exactly the
  percentile 100 and the level \<open>C\<close>, in either commit mode and whatever \<open>repos\<close>
  is, for every power function with \<open>2 ** 0 = 1\<close>.
\<close>

theorem calculateRank_close_to_reference:
  "(nonneg_inputs p \<longrightarrow>
      \<bar>percentile (calculateRank p) - spec_percentile p\<bar> \<le> 1 / 10 ^ 12 \<and>
      ((\<forall>t\<in>set THRESHOLDS. 1 / 10 ^ 12 < \<bar>spec_percentile p - t\<bar>) \<longrightarrow>
         level (calculateRank p) = spec_level (spec_percentile p))) \<and>
   (nonneg_inputs p \<and> accurate_pow2 pw \<longrightarrow>
      \<bar>percentile (rank_in (engine pw) p) - spec_percentile p\<bar> \<le> 1 / 10 ^ 12 \<and>
      ((\<forall>t\<in>set THRESHOLDS. 1 / 10 ^ 12 < \<bar>spec_percentile p - t\<bar>) \<longrightarrow>
         level (rank_in (engine pw) p) = spec_level (spec_percentile p))) \<and>
   (nonneg_inputs p \<longrightarrow>
      rank_in exact_reals p
        = \<lparr>level = spec_level (spec_percentile p), percentile = spec_percentile p\<rparr>) \<and>
   level (calculateRank p') = spec_level (percentile (calculateRank p')) \<and>
   level (rank_in A p') = spec_level (percentile (rank_in A p')) \<and>
   (\<forall>ac r. calculateRank \<lparr>all_commits = ac, totalCommits = 0, prs = 0, issues = 0, reviews = 0,
                           stars = 0, followers = 0, repos = r\<rparr> = \<lparr>level = ''C'', percentile = 100\<rparr>) \<and>
   (pw' 0 = 1 \<longrightarrow>
      (\<forall>ac r. rank_in (engine pw') \<lparr>all_commits = ac, totalCommits = 0, prs = 0, issues = 0,
                  reviews = 0, stars = 0, followers = 0, repos = r\<rparr>
                = \<lparr>level = ''C'', percentile = 100\<rparr>))"
proof -
  have close: "\<bar>percentile (rank_in (engine f) p) - spec_percentile p\<bar> \<le> 1 / 10 ^ 12 \<and>
      ((\<forall>t\<in>set THRESHOLDS. 1 / 10 ^ 12 < \<bar>spec_percentile p - t\<bar>) \<longrightarrow>
         level (rank_in (engine f) p) = spec_level (spec_percentile p))"
    if "nonneg_inputs p" and "accurate_pow2 f" for f
  proof -
    from that have c: "\<bar>percentile (rank_in (engine f) p) - spec_percentile p\<bar> \<le> 1 / 10 ^ 12"
      by (rule percentile_close)
    have "level (rank_in (engine f) p) = spec_level (spec_percentile p)"
      if "\<forall>t\<in>set THRESHOLDS. 1 / 10 ^ 12 < \<bar>spec_percentile p - t\<bar>"
      using level_for_stable [OF c that] by (simp only: level_rank_in level_for_spec)
    with c show ?thesis by blast
  qed
  have 1: "nonneg_inputs p \<longrightarrow>
      \<bar>percentile (calculateRank p) - spec_percentile p\<bar> \<le> 1 / 10 ^ 12 \<and>
      ((\<forall>t\<in>set THRESHOLDS. 1 / 10 ^ 12 < \<bar>spec_percentile p - t\<bar>) \<longrightarrow>
         level (calculateRank p) = spec_level (spec_percentile p))"
    unfolding calculateRank_def js_doubles_engine using close [OF _ accurate_pow2_fl] by blast
  have 2: "nonneg_inputs p \<and> accurate_pow2 pw \<longrightarrow>
      \<bar>percentile (rank_in (engine pw) p) - spec_percentile p\<bar> \<le> 1 / 10 ^ 12 \<and>
      ((\<forall>t\<in>set THRESHOLDS. 1 / 10 ^ 12 < \<bar>spec_percentile p - t\<bar>) \<longrightarrow>
         level (rank_in (engine pw) p) = spec_level (spec_percentile p))"
    using close [of pw] by blast
  have 3: "nonneg_inputs p \<longrightarrow>
      rank_in exact_reals p
        = \<lparr>level = spec_level (spec_percentile p), percentile = spec_percentile p\<rparr>"
  proof
    assume nn: "nonneg_inputs p"
    have "rank_in exact_reals p
      = \<lparr>level = level (rank_in exact_reals p), percentile = percentile (rank_in exact_reals p)\<rparr>"
      by simp
    also have "\<dots> = \<lparr>level = spec_level (spec_percentile p), percentile = spec_percentile p\<rparr>"
      by (simp add: level_rank_in level_for_spec percentile_exact_spec [OF nn])
    finally show "rank_in exact_reals p
      = \<lparr>level = spec_level (spec_percentile p), percentile = spec_percentile p\<rparr>" .
  qed
  have 4: "level (calculateRank p') = spec_level (percentile (calculateRank p'))"
    by (simp only: calculateRank_def level_rank_in level_for_spec)
  have 5: "level (rank_in A p') = spec_level (percentile (rank_in A p'))"
    by (simp only: level_rank_in level_for_spec)
  have 6: "\<forall>ac r. calculateRank \<lparr>all_commits = ac, totalCommits = 0, prs = 0, issues = 0, reviews = 0,
          stars = 0, followers = 0, repos = r\<rparr> = \<lparr>level = ''C'', percentile = 100\<rparr>"
    unfolding calculateRank_def js_doubles_engine by (intro allI rank_in_zero) (simp add: fl_1)
  have 7: "pw' 0 = 1 \<longrightarrow>
      (\<forall>ac r. rank_in (engine pw') \<lparr>all_commits = ac, totalCommits = 0, prs = 0, issues = 0,
                  reviews = 0, stars = 0, followers = 0, repos = r\<rparr>
                = \<lparr>level = ''C'', percentile = 100\<rparr>)"
    by (intro impI allI rank_in_zero)
  from 1 2 3 4 5 6 7 show ?thesis by (intro conjI)
qed

theorem calculateRank_close_to_reference_witness:
  "nonneg_inputs \<lparr>all_commits = True, totalCommits = 1000, prs = 50, issues = 25, reviews = 2,
      stars = 0, followers = 0, repos = None\<rparr> \<and>
   accurate_pow2 (\<lambda>y. fl (2 powr y)) \<and>
   spec_percentile \<lparr>all_commits = True, totalCommits = 1000, prs = 50, issues = 25, reviews = 2,
      stars = 0, followers = 0, repos = None\<rparr> = 425 / 6 \<and>
   list_all (\<lambda>t. 1 / 10 ^ 12 < \<bar>425 / 6 - t\<bar>) THRESHOLDS \<and>
   \<bar>percentile (calculateRank \<lparr>all_commits = True, totalCommits = 1000, prs = 50, issues = 25,
      reviews = 2, stars = 0, followers = 0, repos = None\<rparr>) - 425 / 6\<bar> \<le> 1 / 10 ^ 12 \<and>
   level (calculateRank \<lparr>all_commits = True, totalCommits = 1000, prs = 50, issues = 25,
      reviews = 2, stars = 0, followers = 0, repos = None\<rparr>) = ''B-'' \<and>
   rank_in exact_reals \<lparr>all_commits = True, totalCommits = 1000, prs = 50, issues = 25,
      reviews = 2, stars = 0, followers = 0, repos = None\<rparr>
     = \<lparr>level = ''B-'', percentile = 425 / 6\<rparr> \<and>
   fl (2 powr 0) = 1 \<and>
   rank_in (engine (\<lambda>y. fl (2 powr y))) \<lparr>all_commits = False, totalCommits = 0, prs = 0,
      issues = 0, reviews = 0, stars = 0, followers = 0, repos = Some 3\<rparr>
     = \<lparr>level = ''C'', percentile = 100\<rparr>"
proof -
  let ?p = "\<lparr>all_commits = True, totalCommits = 1000, prs = 50, issues = 25, reviews = 2,
      stars = 0, followers = 0, repos = None\<rparr>"
  have 1: "nonneg_inputs ?p" by (simp add: nonneg_inputs_def)
  have 3: "accurate_pow2 (\<lambda>y. fl (2 powr y))" by (rule accurate_pow2_fl)
  have 4: "spec_percentile ?p = 425 / 6"
    by (simp add: spec_percentile_def spec_score_def spec_f_def spec_g_def powr_minus)
  have 5: "spec_level (425 / 6) = ''B-''" by (simp add: spec_level_def)
  have 6: "list_all (\<lambda>t. 1 / 10 ^ 12 < \<bar>425 / 6 - t\<bar>) THRESHOLDS" by (simp add: THRESHOLDS_def)
  then have 7: "\<forall>t\<in>set THRESHOLDS. 1 / 10 ^ 12 < \<bar>spec_percentile ?p - t\<bar>"
    by (simp only: 4 list_all_iff)
  have 8: "fl (2 powr 0) = 1" by (simp add: fl_1)
  from calculateRank_close_to_reference [of ?p "\<lambda>y. fl (2 powr y)" _ _ "\<lambda>y. fl (2 powr y)"]
    1 3 7 8
  have "\<bar>percentile (calculateRank ?p) - spec_percentile ?p\<bar> \<le> 1 / 10 ^ 12"
    and "level (calculateRank ?p) = spec_level (spec_percentile ?p)"
    and "rank_in exact_reals ?p
        = \<lparr>level = spec_level (spec_percentile ?p), percentile = spec_percentile ?p\<rparr>"
    and "rank_in (engine (\<lambda>y. fl (2 powr y))) \<lparr>all_commits = False, totalCommits = 0, prs = 0,
      issues = 0, reviews = 0, stars = 0, followers = 0, repos = Some 3\<rparr>
     = \<lparr>level = ''C'', percentile = 100\<rparr>"
    by blast+
  with 1 3 4 5 6 8 show ?thesis by (simp only: 4 5)
qed


section \<open>Rank: independence of the unused field\<close>

text \<open>
  Claim C10. \<open>calculateRank\<close> is a function of its argument (two runs on equal
  inputs give equal results), and two parameter records that agree on
  \<open>all_commits\<close>, \<open>totalCommits\<close>, \<open>prs\<close>, \<open>issues\<close>, \<open>reviews\<close>,
  \<open>stars\<close> and \<open>followers\<close> get the same level and the same percentile,
  whatever their \<open>repos\<close> fields are.
\<close>

theorem calculateRank_ignores_repos:
  assumes "all_commits p = all_commits q"
    and "totalCommits p = totalCommits q"
    and "prs p = prs q"
    and "issues p = issues q"
    and "reviews p = reviews q"
    and "stars p = stars q"
    and "followers p = followers q"
  shows "level (calculateRank p) = level (calculateRank q) \<and>
         percentile (calculateRank p) = percentile (calculateRank q) \<and>
         calculateRank p = calculateRank q"
  using assms by (simp add: calculateRank_def rank_in_def)


theorem calculateRank_ignores_repos_witness:
  "repos \<lparr>all_commits = True, totalCommits = 10, prs = 2, issues = 3, reviews = 4, stars = 5,
      followers = 6, repos = None\<rparr>
     \<noteq> repos \<lparr>all_commits = True, totalCommits = 10, prs = 2, issues = 3, reviews = 4, stars = 5,
      followers = 6, repos = Some 7\<rparr> \<and>
   calculateRank \<lparr>all_commits = True, totalCommits = 10, prs = 2, issues = 3, reviews = 4,
      stars = 5, followers = 6, repos = None\<rparr>
     = calculateRank \<lparr>all_commits = True, totalCommits = 10, prs = 2, issues = 3, reviews = 4,
      stars = 5, followers = 6, repos = Some 7\<rparr>"
  using calculateRank_ignores_repos
    [of "\<lparr>all_commits = True, totalCommits = 10, prs = 2, issues = 3, reviews = 4, stars = 5,
          followers = 6, repos = None\<rparr>"
        "\<lparr>all_commits = True, totalCommits = 10, prs = 2, issues = 3, reviews = 4, stars = 5,
          followers = 6, repos = Some 7\<rparr>"]
  by simp

section \<open>Streaks: loop invariants\<close>

declare longest_loop.simps [simp del] current_loop.simps [simp del] best_loop.simps [simp del]

lemma active_run_end_le_trail:
  assumes "trail days m t" "active_run days m s n" "s + n = m"
  shows "n \<le> t"
proof (rule ccontr)
  assume "\<not> n \<le> t"
  then have lt: "t < n" by simp
  with assms(3) have "t < m" by simp
  with assms(1) have z: "contributionCount (days ! (m - t - 1)) = 0" by (simp add: trail_def)
  have "m - t - 1 = s + (n - t - 1)" using lt assms(3) by simp
  moreover have "n - t - 1 < n" using lt by simp
  ultimately have "contributionCount (days ! (m - t - 1)) > 0"
    using assms(2) unfolding active_run_def by metis
  with z show False by simp
qed

lemma active_run_mono: "active_run days m s n \<Longrightarrow> m \<le> m' \<Longrightarrow> active_run days m' s n"
  by (simp add: active_run_def)

lemma active_run_split: "active_run days (Suc m) s n \<Longrightarrow> active_run days m s n \<or> s + n = Suc m"
  by (auto simp: active_run_def)

lemma trail_pos:
  assumes "trail days i t" "contributionCount (days ! i) > 0"
  shows "trail days (Suc i) (Suc t)"
  using assms unfolding trail_def active_run_def by (auto simp: less_Suc_eq)

lemma trail_zero:
  assumes "contributionCount (days ! i) = 0"
  shows "trail days (Suc i) 0"
  using assms by (simp add: trail_def active_run_def)

lemma max_run_pos:
  assumes "trail days i t" "max_active_run days i L" "contributionCount (days ! i) > 0"
  shows "max_active_run days (Suc i) (max L (Suc t))"
proof -
  have tr: "trail days (Suc i) (Suc t)" using assms(1,3) by (rule trail_pos)
  have ex: "\<exists>s. active_run days (Suc i) s (max L (Suc t))"
  proof (cases "Suc t \<le> L")
    case True
    from assms(2) obtain s where "active_run days i s L" unfolding max_active_run_def by blast
    then have "active_run days (Suc i) s L" by (rule active_run_mono) simp
    with True show ?thesis by (auto simp: max_def)
  next
    case False
    from tr have "active_run days (Suc i) (Suc i - Suc t) (Suc t)" by (simp add: trail_def)
    with False show ?thesis by (auto simp: max_def)
  qed
  have ub: "n \<le> max L (Suc t)" if r: "active_run days (Suc i) s n" for s n
  proof -
    from active_run_split [OF r] show ?thesis
    proof
      assume "active_run days i s n"
      with assms(2) have "n \<le> L" unfolding max_active_run_def by blast
      then show ?thesis by simp
    next
      assume "s + n = Suc i"
      with tr r have "n \<le> Suc t" by (rule active_run_end_le_trail)
      then show ?thesis by simp
    qed
  qed
  from ex ub show ?thesis unfolding max_active_run_def by blast
qed

lemma max_run_zero:
  assumes "max_active_run days i L" "contributionCount (days ! i) = 0"
  shows "max_active_run days (Suc i) L"
proof -
  from assms(1) obtain s where "active_run days i s L" unfolding max_active_run_def by blast
  then have ex: "active_run days (Suc i) s L" by (rule active_run_mono) simp
  have ub: "n \<le> L" if r: "active_run days (Suc i) s n" for s n
  proof -
    from active_run_split [OF r] show ?thesis
    proof
      assume "active_run days i s n"
      with assms(1) show ?thesis unfolding max_active_run_def by blast
    next
      assume "s + n = Suc i"
      with trail_zero [OF assms(2)] r have "n \<le> 0" by (rule active_run_end_le_trail)
      then show ?thesis by simp
    qed
  qed
  from ex ub show ?thesis unfolding max_active_run_def by blast
qed

lemma max_active_run_unique: "max_active_run days m L \<Longrightarrow> max_active_run days m L' \<Longrightarrow> L = L'"
  unfolding max_active_run_def by (meson le_antisym)

lemma trail_0: "trail days 0 0"
  by (simp add: trail_def active_run_def)

lemma max_active_run_0: "max_active_run days 0 0"
  by (simp add: max_active_run_def active_run_def)

lemma longest_loop_correct:
  "i \<le> length days \<Longrightarrow> trail days i temp \<Longrightarrow> max_active_run days i longest \<Longrightarrow>
   max_active_run days (length days) (longest_loop days i temp longest)"
proof (induction days i temp longest rule: longest_loop.induct)
  case (1 days i temp longest)
  show ?case
  proof (cases "i < length days")
    case False
    with "1.prems" show ?thesis by (simp add: longest_loop.simps)
  next
    case lt: True
    show ?thesis
    proof (cases "contributionCount (days ! i) > 0")
      case True
      have "max_active_run days (Suc i) (max longest (Suc temp))"
        using "1.prems"(2,3) True by (rule max_run_pos)
      moreover have "max longest (Suc temp) = (if temp + 1 > longest then temp + 1 else longest)"
        by (simp add: max_def)
      ultimately have m: "max_active_run days (i + 1) (if temp + 1 > longest then temp + 1 else longest)"
        by simp
      have t: "trail days (i + 1) (temp + 1)"
        using trail_pos [OF "1.prems"(2) True] by simp
      have "max_active_run days (length days)
              (longest_loop days (i + 1) (temp + 1) (if temp + 1 > longest then temp + 1 else longest))"
        using lt True t m by (intro "1.IH"(1)) simp_all
      then show ?thesis using lt True by (subst longest_loop.simps) simp
    next
      case False
      then have z: "contributionCount (days ! i) = 0" by simp
      have m: "max_active_run days (i + 1) longest"
        using max_run_zero [OF "1.prems"(3) z] by simp
      have t: "trail days (i + 1) 0" using trail_zero [OF z] by simp
      have "max_active_run days (length days) (longest_loop days (i + 1) 0 longest)"
        using lt False t m by (intro "1.IH"(2)) simp_all
      then show ?thesis using lt False by (subst longest_loop.simps) simp
    qed
  qed
qed

lemma longestStreak_max_run: "max_active_run days (length days) (longestStreak (computeStreaks days))"
  unfolding computeStreaks_def using longest_loop_correct [of 0 days 0 0]
  by (simp add: trail_0 max_active_run_0)

lemma current_loop_takeWhile:
  "- 1 \<le> i \<Longrightarrow> i < int (length days) \<Longrightarrow>
   current_loop days i current =
     current + length (takeWhile (\<lambda>d. contributionCount d > 0) (rev (take (nat (i + 1)) days)))"
proof (induction days i current rule: current_loop.induct)
  case (1 days i current)
  show ?case
  proof (cases "i \<ge> 0")
    case False
    with "1.prems" have "i = - 1" by simp
    then show ?thesis by (simp add: current_loop.simps)
  next
    case ge: True
    then have n: "nat (i + 1) = Suc (nat i)" by simp
    have lt: "nat i < length days" using ge "1.prems" by simp
    have tk: "rev (take (nat (i + 1)) days) = days ! nat i # rev (take (nat i) days)"
      unfolding n by (simp add: take_Suc_conv_app_nth [OF lt])
    show ?thesis
    proof (cases "contributionCount (days ! nat i) > 0")
      case True
      have "current_loop days (i - 1) (current + 1) =
              current + 1 + length (takeWhile (\<lambda>d. contributionCount d > 0) (rev (take (nat (i - 1 + 1)) days)))"
        using ge True "1.prems" by (intro "1.IH") simp_all
      then show ?thesis using ge True tk by (subst current_loop.simps) simp
    next
      case False
      then show ?thesis using ge tk by (subst current_loop.simps) simp
    qed
  qed
qed

lemma currentStreak_takeWhile:
  "currentStreak (computeStreaks days) = length (takeWhile (\<lambda>d. contributionCount d > 0) (rev days))"
  unfolding computeStreaks_def using current_loop_takeWhile [of "int (length days) - 1" days 0]
  by simp

lemma first_run_zero:
  assumes "first_run days i s L" "0 < L" "contributionCount (days ! i) = 0"
  shows "first_run days (Suc i) s L"
proof -
  from assms(1) have m: "max_active_run days i L" and r: "active_run days i s L"
    and f: "\<And>s'. active_run days i s' L \<Longrightarrow> s \<le> s'"
    unfolding first_run_def by blast+
  have m': "max_active_run days (Suc i) L" using m assms(3) by (rule max_run_zero)
  have r': "active_run days (Suc i) s L" using r by (rule active_run_mono) simp
  have f': "s \<le> s'" if x: "active_run days (Suc i) s' L" for s'
  proof -
    from active_run_split [OF x] show ?thesis
    proof
      assume "active_run days i s' L" then show ?thesis by (rule f)
    next
      assume "s' + L = Suc i"
      with trail_zero [OF assms(3)] x have "L \<le> 0" by (rule active_run_end_le_trail)
      with assms(2) show ?thesis by simp
    qed
  qed
  from m' r' f' show ?thesis unfolding first_run_def by blast
qed

lemma first_run_pos_keep:
  assumes "first_run days i s L" "trail days i t" "contributionCount (days ! i) > 0" "Suc t \<le> L"
  shows "first_run days (Suc i) s L"
proof -
  from assms(1) have m: "max_active_run days i L" and r: "active_run days i s L"
    and f: "\<And>s'. active_run days i s' L \<Longrightarrow> s \<le> s'"
    unfolding first_run_def by blast+
  have "max_active_run days (Suc i) (max L (Suc t))" using assms(2) m assms(3) by (rule max_run_pos)
  with assms(4) have m': "max_active_run days (Suc i) L" by (simp add: max_def)
  have r': "active_run days (Suc i) s L" using r by (rule active_run_mono) simp
  have f': "s \<le> s'" if x: "active_run days (Suc i) s' L" for s'
  proof -
    from active_run_split [OF x] show ?thesis
    proof
      assume "active_run days i s' L" then show ?thesis by (rule f)
    next
      assume "s' + L = Suc i"
      moreover from r have "s + L \<le> i" by (simp add: active_run_def)
      ultimately show ?thesis by simp
    qed
  qed
  from m' r' f' show ?thesis unfolding first_run_def by blast
qed

lemma first_run_pos_new:
  assumes "max_active_run days i L" "trail days i t" "contributionCount (days ! i) > 0" "L < Suc t"
  shows "first_run days (Suc i) (i - t) (Suc t)"
proof -
  have "max_active_run days (Suc i) (max L (Suc t))" using assms(2,1,3) by (rule max_run_pos)
  with assms(4) have m': "max_active_run days (Suc i) (Suc t)" by (simp add: max_def)
  have tr: "trail days (Suc i) (Suc t)" using assms(2,3) by (rule trail_pos)
  then have r': "active_run days (Suc i) (i - t) (Suc t)" by (simp add: trail_def)
  have f': "i - t \<le> s'" if x: "active_run days (Suc i) s' (Suc t)" for s'
  proof -
    from active_run_split [OF x] show ?thesis
    proof
      assume "active_run days i s' (Suc t)"
      with assms(1) have "Suc t \<le> L" unfolding max_active_run_def by blast
      with assms(4) show ?thesis by simp
    next
      assume "s' + Suc t = Suc i"
      then show ?thesis by simp
    qed
  qed
  from m' r' f' show ?thesis unfolding first_run_def by blast
qed

lemma best_inv_zero:
  assumes "best_inv days i bs be" "contributionCount (days ! i) = 0"
  shows "best_inv days (Suc i) bs be"
  using assms(1) unfolding best_inv_def
proof (elim disjE conjE)
  assume "bs = - 1" "be = - 1" "max_active_run days i 0"
  then show "(bs = - 1 \<and> be = - 1 \<and> (max_active_run days (Suc i) 0 \<or> max_active_run days (Suc i) 1)) \<or>
     (0 \<le> bs \<and> bs < be \<and> be < int (Suc i) \<and> first_run days (Suc i) (nat bs) (nat (be - bs + 1)))"
    using max_run_zero [OF _ assms(2)] by blast
next
  assume "bs = - 1" "be = - 1" "max_active_run days i 1"
  then show "(bs = - 1 \<and> be = - 1 \<and> (max_active_run days (Suc i) 0 \<or> max_active_run days (Suc i) 1)) \<or>
     (0 \<le> bs \<and> bs < be \<and> be < int (Suc i) \<and> first_run days (Suc i) (nat bs) (nat (be - bs + 1)))"
    using max_run_zero [OF _ assms(2)] by blast
next
  assume a: "0 \<le> bs" "bs < be" "be < int i" "first_run days i (nat bs) (nat (be - bs + 1))"
  then have "first_run days (Suc i) (nat bs) (nat (be - bs + 1))"
    by (intro first_run_zero assms(2)) simp_all
  with a show "(bs = - 1 \<and> be = - 1 \<and> (max_active_run days (Suc i) 0 \<or> max_active_run days (Suc i) 1)) \<or>
     (0 \<le> bs \<and> bs < be \<and> be < int (Suc i) \<and> first_run days (Suc i) (nat bs) (nat (be - bs + 1)))"
    by simp
qed

lemma best_inv_pos_keep:
  assumes "best_inv days i bs be" "trail days i t" "contributionCount (days ! i) > 0"
    and "\<not> int (t + 1) > be - bs + 1"
  shows "best_inv days (Suc i) bs be"
  using assms(1) unfolding best_inv_def
proof (elim disjE conjE)
  assume a: "bs = - 1" "be = - 1" "max_active_run days i 0"
  with assms(4) have "t = 0" by simp
  with max_run_pos [OF assms(2) a(3) assms(3)] have "max_active_run days (Suc i) 1" by simp
  with a show "(bs = - 1 \<and> be = - 1 \<and> (max_active_run days (Suc i) 0 \<or> max_active_run days (Suc i) 1)) \<or>
     (0 \<le> bs \<and> bs < be \<and> be < int (Suc i) \<and> first_run days (Suc i) (nat bs) (nat (be - bs + 1)))"
    by simp
next
  assume a: "bs = - 1" "be = - 1" "max_active_run days i 1"
  with assms(4) have "t = 0" by simp
  with max_run_pos [OF assms(2) a(3) assms(3)] have "max_active_run days (Suc i) 1" by simp
  with a show "(bs = - 1 \<and> be = - 1 \<and> (max_active_run days (Suc i) 0 \<or> max_active_run days (Suc i) 1)) \<or>
     (0 \<le> bs \<and> bs < be \<and> be < int (Suc i) \<and> first_run days (Suc i) (nat bs) (nat (be - bs + 1)))"
    by simp
next
  assume a: "0 \<le> bs" "bs < be" "be < int i" "first_run days i (nat bs) (nat (be - bs + 1))"
  have "Suc t \<le> nat (be - bs + 1)" using assms(4) by simp
  with a(4) assms(2,3) have "first_run days (Suc i) (nat bs) (nat (be - bs + 1))"
    by (rule first_run_pos_keep)
  with a show "(bs = - 1 \<and> be = - 1 \<and> (max_active_run days (Suc i) 0 \<or> max_active_run days (Suc i) 1)) \<or>
     (0 \<le> bs \<and> bs < be \<and> be < int (Suc i) \<and> first_run days (Suc i) (nat bs) (nat (be - bs + 1)))"
    by simp
qed

lemma best_inv_max_run:
  assumes "best_inv days i bs be"
  shows "\<exists>L. max_active_run days i L \<and> int L \<le> be - bs + 1"
  using assms unfolding best_inv_def first_run_def
  by (elim disjE conjE) (rule exI [of _ 0], simp, rule exI [of _ 1], simp,
    rule exI [of _ "nat (be - bs + 1)"], simp)

lemma best_inv_pos_new:
  assumes "best_inv days i bs be" "trail days i t" "contributionCount (days ! i) > 0"
    and "int (t + 1) > be - bs + 1"
  shows "best_inv days (Suc i) (int (i - t)) (int i)"
proof -
  from best_inv_max_run [OF assms(1)]
  obtain L where m: "max_active_run days i L" and le: "int L \<le> be - bs + 1" by blast
  have "L < Suc t" using assms(4) le by simp
  with m assms(2,3) have fr: "first_run days (Suc i) (i - t) (Suc t)" by (rule first_run_pos_new)
  have ti: "t \<le> i" using assms(2) by (simp add: trail_def active_run_def)
  have "1 \<le> be - bs + 1" using assms(1) unfolding best_inv_def by auto
  with assms(4) have t0: "0 < t" by simp
  have "nat (int i - int (i - t) + 1) = Suc t" and "nat (int i - int t) = i - t"
    using ti by simp_all
  with fr ti t0 show ?thesis unfolding best_inv_def by simp
qed

lemma best_loop_correct:
  "i \<le> length days \<Longrightarrow> trail days i tempLen \<Longrightarrow> (0 < tempLen \<longrightarrow> tempStart = i - tempLen) \<Longrightarrow>
   best_inv days i bestStart bestEnd \<Longrightarrow>
   best_inv days (length days) (fst (best_loop days i tempStart tempLen bestStart bestEnd))
     (snd (best_loop days i tempStart tempLen bestStart bestEnd))"
proof (induction days i tempStart tempLen bestStart bestEnd rule: best_loop.induct)
  case (1 days i tempStart tempLen bestStart bestEnd)
  show ?case
  proof (cases "i < length days")
    case False
    with "1.prems" show ?thesis by (simp add: best_loop.simps)
  next
    case lt: True
    show ?thesis
    proof (cases "contributionCount (days ! i) > 0")
      case False
      then have z: "contributionCount (days ! i) = 0" by simp
      have "best_inv days (length days) (fst (best_loop days (i + 1) tempStart 0 bestStart bestEnd))
              (snd (best_loop days (i + 1) tempStart 0 bestStart bestEnd))"
        using lt False trail_zero [OF z] best_inv_zero [OF "1.prems"(4) z]
        by (intro "1.IH"(3)) simp_all
      then show ?thesis using lt False by (subst (1 2) best_loop.simps) simp
    next
      case True
      let ?ts = "if tempLen = 0 then i else tempStart"
      have ts: "?ts = i - tempLen" using "1.prems"(3) by simp
      have tr: "trail days (i + 1) (tempLen + 1)" using trail_pos [OF "1.prems"(2) True] by simp
      have st: "0 < tempLen + 1 \<longrightarrow> ?ts = i + 1 - (tempLen + 1)" using ts by simp
      show ?thesis
      proof (cases "int (tempLen + 1) > bestEnd - bestStart + 1")
        case gt: True
        have "best_inv days (i + 1) (int ?ts) (int i)"
          using best_inv_pos_new [OF "1.prems"(4,2) True gt] ts by simp
        then have "best_inv days (length days)
                (fst (best_loop days (i + 1) ?ts (tempLen + 1) (int ?ts) (int i)))
                (snd (best_loop days (i + 1) ?ts (tempLen + 1) (int ?ts) (int i)))"
          using lt True gt tr st by (intro "1.IH"(1)) simp_all
        then show ?thesis using lt True gt by (subst (1 2) best_loop.simps) simp
      next
        case le: False
        have "best_inv days (i + 1) bestStart bestEnd"
          using best_inv_pos_keep [OF "1.prems"(4,2) True le] by simp
        then have "best_inv days (length days)
                (fst (best_loop days (i + 1) ?ts (tempLen + 1) bestStart bestEnd))
                (snd (best_loop days (i + 1) ?ts (tempLen + 1) bestStart bestEnd))"
          using lt True le tr st by (intro "1.IH"(2)) simp_all
        then show ?thesis using lt True le by (subst (1 2) best_loop.simps) simp
      qed
    qed
  qed
qed

lemma longest_range_inv:
  "best_inv days (length days) (fst (longest_range days)) (snd (longest_range days))"
  unfolding longest_range_def
  by (rule best_loop_correct) (simp_all add: trail_0 best_inv_def max_active_run_0)

lemma longestStreak_Max: "longestStreak (computeStreaks days) = Max {n. \<exists>s. active_run days (length days) s n}"
proof -
  let ?A = "{n. \<exists>s. active_run days (length days) s n}"
  have m: "max_active_run days (length days) (longestStreak (computeStreaks days))"
    by (rule longestStreak_max_run)
  have "?A \<subseteq> {..length days}" by (auto simp: active_run_def)
  then have fin: "finite ?A" by (rule finite_subset) simp
  have "Max ?A = longestStreak (computeStreaks days)"
    using fin m unfolding max_active_run_def by (intro Max_eqI) auto
  then show ?thesis by simp
qed

lemma longestStreak_all_zero:
  assumes "\<forall>d\<in>set days. contributionCount d = 0"
  shows "longestStreak (computeStreaks days) = 0"
proof (rule ccontr)
  assume "longestStreak (computeStreaks days) \<noteq> 0"
  then have p: "0 < longestStreak (computeStreaks days)" by simp
  from longestStreak_max_run [of days] obtain s
    where r: "active_run days (length days) s (longestStreak (computeStreaks days))"
    unfolding max_active_run_def by blast
  from r p have "s < length days" and "contributionCount (days ! (s + 0)) > 0"
    unfolding active_run_def by (simp, blast)
  then have "days ! s \<in> set days" and "contributionCount (days ! s) > 0" by simp_all
  with assms show False by auto
qed

section \<open>Streaks: the current streak\<close>

text \<open>
  Claim C3. For every day sequence (in particular every one sorted ascending by date),
  \<open>currentStreak\<close> is the number of trailing consecutive days with a nonzero count,
  counted backward from the most recent day up to the first zero-count day or the start
  of the sequence. If the most recent day has count zero the current streak is 0 whatever
  came before, and the empty sequence has current streak 0.
\<close>

theorem currentStreak_trailing_days:
  "currentStreak (computeStreaks days) =
     length (takeWhile (\<lambda>d. contributionCount d \<noteq> 0) (rev days)) \<and>
   (days \<noteq> [] \<and> contributionCount (last days) = 0 \<longrightarrow> currentStreak (computeStreaks days) = 0) \<and>
   currentStreak (computeStreaks []) = 0"
proof -
  have eq: "currentStreak (computeStreaks ds) =
      length (takeWhile (\<lambda>d. contributionCount d \<noteq> 0) (rev ds))" for ds
    by (simp add: currentStreak_takeWhile)
  have "currentStreak (computeStreaks days) = 0"
    if "days \<noteq> []" and "contributionCount (last days) = 0"
  proof (cases days rule: rev_cases)
    case Nil
    with that(1) show ?thesis by simp
  next
    case (snoc ys y)
    with that(2) show ?thesis by (simp add: eq)
  qed
  moreover have "currentStreak (computeStreaks []) = 0" by (simp add: eq)
  ultimately show ?thesis using eq [of days] by blast
qed

theorem currentStreak_trailing_days_witness:
  "[\<lparr>date = ''2024-03-01'', contributionCount = 4\<rparr>,
    \<lparr>date = ''2024-03-02'', contributionCount = 2\<rparr>,
    \<lparr>date = ''2024-03-03'', contributionCount = 0\<rparr>] \<noteq> [] \<and>
   contributionCount (last [\<lparr>date = ''2024-03-01'', contributionCount = 4\<rparr>,
    \<lparr>date = ''2024-03-02'', contributionCount = 2\<rparr>,
    \<lparr>date = ''2024-03-03'', contributionCount = 0\<rparr>]) = 0 \<and>
   currentStreak (computeStreaks [\<lparr>date = ''2024-03-01'', contributionCount = 4\<rparr>,
    \<lparr>date = ''2024-03-02'', contributionCount = 2\<rparr>,
    \<lparr>date = ''2024-03-03'', contributionCount = 0\<rparr>]) = 0"
  using currentStreak_trailing_days
    [of "[\<lparr>date = ''2024-03-01'', contributionCount = 4\<rparr>,
          \<lparr>date = ''2024-03-02'', contributionCount = 2\<rparr>,
          \<lparr>date = ''2024-03-03'', contributionCount = 0\<rparr>]"]
  by simp

section \<open>Streaks: the longest streak\<close>

text \<open>
  Claim C4. For every day sequence, \<open>longestStreak\<close> is the maximum length of a run
  of consecutive days with count above zero anywhere in the sequence; it is 0 for the
  empty sequence and when every day has count 0. \<open>computeStreaks\<close> is a function of
  the day sequence alone, so computing it again on the same input gives the same result.
  On the counts \<open>[1,0,2,3,0,0,1]\<close> (oldest first) the longest streak is 2 and the
  current streak is 1.
\<close>

theorem longestStreak_maximum_run:
  "longestStreak (computeStreaks days) = Max {n. \<exists>s. active_run days (length days) s n} \<and>
   ((\<forall>d\<in>set days. contributionCount d = 0) \<longrightarrow> longestStreak (computeStreaks days) = 0) \<and>
   longestStreak (computeStreaks []) = 0 \<and>
   computeStreaks days = computeStreaks days \<and>
   computeStreaks scenario_B = \<lparr>currentStreak = 1, longestStreak = 2\<rparr>"
proof -
  have "longestStreak (computeStreaks []) = 0"
    using longestStreak_all_zero [of "[]"] by simp
  moreover have "computeStreaks scenario_B = \<lparr>currentStreak = 1, longestStreak = 2\<rparr>"
    by (simp add: computeStreaks_def scenario_B_def longest_loop.simps current_loop.simps)
  ultimately show ?thesis
    using longestStreak_Max [of days] longestStreak_all_zero [of days] by blast
qed

theorem longestStreak_maximum_run_witness:
  "set (map contributionCount [\<lparr>date = ''2024-03-01'', contributionCount = 0\<rparr>,
              \<lparr>date = ''2024-03-02'', contributionCount = 0\<rparr>]) = {0} \<and>
   longestStreak (computeStreaks [\<lparr>date = ''2024-03-01'', contributionCount = 0\<rparr>,
              \<lparr>date = ''2024-03-02'', contributionCount = 0\<rparr>]) = 0 \<and>
   longestStreak (computeStreaks scenario_B) = 2"
  using longestStreak_maximum_run
    [of "[\<lparr>date = ''2024-03-01'', contributionCount = 0\<rparr>,
          \<lparr>date = ''2024-03-02'', contributionCount = 0\<rparr>]"]
  by simp

section \<open>Streaks: the index pair of the longest streak\<close>

text \<open>
  What the index-pair loop computes. When the longest streak has at least two days, the
  pair is the first run of that length: valid indices, \<open>bestEnd - bestStart + 1\<close>
  equal to \<open>longestStreak\<close>. When the longest streak has one day (or none), the pair
  stays \<open>(-1, -1)\<close>: the initial pair already counts as length
  \<open>-1 - (-1) + 1 = 1\<close> in the test \<open>tempLen > bestEnd - bestStart + 1\<close>, so a run
  of one day never replaces it.
\<close>

lemma longest_range_short:
  assumes "longestStreak (computeStreaks days) \<le> 1"
  shows "longest_range days = (- 1, - 1)"
proof -
  let ?bs = "fst (longest_range days)" and ?be = "snd (longest_range days)"
  have m: "max_active_run days (length days) (longestStreak (computeStreaks days))"
    by (rule longestStreak_max_run)
  from longest_range_inv [of days] have "?bs = - 1 \<and> ?be = - 1"
    unfolding best_inv_def
  proof (elim disjE conjE)
    assume "0 \<le> ?bs" "?bs < ?be" "first_run days (length days) (nat ?bs) (nat (?be - ?bs + 1))"
    then have "max_active_run days (length days) (nat (?be - ?bs + 1))" and "2 \<le> nat (?be - ?bs + 1)"
      by (simp_all add: first_run_def)
    with m assms show ?thesis using max_active_run_unique by fastforce
  qed simp_all
  then show ?thesis by (simp add: prod_eq_iff)
qed

lemma longest_range_two_or_more:
  assumes "2 \<le> longestStreak (computeStreaks days)"
  shows "0 \<le> fst (longest_range days) \<and> fst (longest_range days) < snd (longest_range days) \<and>
         snd (longest_range days) < int (length days) \<and>
         snd (longest_range days) - fst (longest_range days) + 1 = int (longestStreak (computeStreaks days)) \<and>
         first_run days (length days) (nat (fst (longest_range days))) (longestStreak (computeStreaks days))"
proof -
  let ?bs = "fst (longest_range days)" and ?be = "snd (longest_range days)"
  have m: "max_active_run days (length days) (longestStreak (computeStreaks days))"
    by (rule longestStreak_max_run)
  from longest_range_inv [of days] show ?thesis
    unfolding best_inv_def
  proof (elim disjE conjE)
    assume "max_active_run days (length days) 0"
    with m have "longestStreak (computeStreaks days) = 0" by (rule max_active_run_unique)
    with assms show ?thesis by simp
  next
    assume "max_active_run days (length days) 1"
    with m have "longestStreak (computeStreaks days) = 1" by (rule max_active_run_unique)
    with assms show ?thesis by simp
  next
    assume a: "0 \<le> ?bs" "?bs < ?be" "?be < int (length days)"
      "first_run days (length days) (nat ?bs) (nat (?be - ?bs + 1))"
    then have "max_active_run days (length days) (nat (?be - ?bs + 1))" by (simp add: first_run_def)
    with m have "longestStreak (computeStreaks days) = nat (?be - ?bs + 1)" by (rule max_active_run_unique)
    with a show ?thesis by simp
  qed
qed

text \<open>
  Claim C7, at a sequence whose longest streak is a single day. The claim asks for the
  indices of the first run of maximum length, valid indices into the sequence. For the
  one-day sequence with count 1 (and for \<open>[1,0,1]\<close>) the longest streak is 1 and the
  sequence has a day with count above zero, but the loop returns \<open>(-1, -1)\<close>, which
  are not indices of the sequence.
\<close>

theorem longest_range_one_day_streak:
  "longestStreak (computeStreaks [\<lparr>date = ''2024-03-01'', contributionCount = 1\<rparr>]) = 1 \<and>
   longest_range [\<lparr>date = ''2024-03-01'', contributionCount = 1\<rparr>] = (- 1, - 1) \<and>
   longestStreak (computeStreaks [\<lparr>date = ''2024-03-01'', contributionCount = 1\<rparr>,
      \<lparr>date = ''2024-03-02'', contributionCount = 0\<rparr>,
      \<lparr>date = ''2024-03-03'', contributionCount = 1\<rparr>]) = 1 \<and>
   longest_range [\<lparr>date = ''2024-03-01'', contributionCount = 1\<rparr>,
      \<lparr>date = ''2024-03-02'', contributionCount = 0\<rparr>,
      \<lparr>date = ''2024-03-03'', contributionCount = 1\<rparr>] = (- 1, - 1)"
  by (simp add: computeStreaks_def longest_range_def longest_loop.simps best_loop.simps)

section \<open>Language aggregator: numeric facts\<close>

lemma js_round_small: "\<bar>x\<bar> \<le> 2 ^ 53 \<Longrightarrow> fl x = y \<Longrightarrow> js_round x = Number y"
proof -
  assume a: "\<bar>x\<bar> \<le> 2 ^ 53" and f: "fl x = y"
  have e: "fl 9007199254740992 = 9007199254740992"
    by (subst fl_eval [where k = 53]) (simp_all add: round_even_def)
  from a have "x \<le> 2 ^ 53" and "- (2 ^ 53) \<le> x" by simp_all
  then have "fl x \<le> fl (2 ^ 53)" and "fl (- (2 ^ 53)) \<le> fl x" by (simp_all add: fl_mono)
  then have "fl x \<le> 2 ^ 53" and "- (2 ^ 53) \<le> fl x" by (simp_all add: fl_minus e)
  moreover have "(2::real) ^ 53 < 2 ^ 1024" by simp
  ultimately show ?thesis unfolding js_round_def f [symmetric] by simp
qed

lemma js_round_nat: "n < 2 ^ 53 \<Longrightarrow> js_round (real n) = Number (real n)"
proof -
  assume a: "n < 2 ^ 53"
  then have "real n < 2 ^ 53" by (metis of_nat_less_iff of_nat_numeral of_nat_power)
  then have "\<bar>real n\<bar> \<le> 2 ^ 53" by simp
  then show ?thesis using fl_nat_exact [OF a] by (rule js_round_small)
qed

lemma js_plus_nat:
  "a + b < 2 ^ 53 \<Longrightarrow> js_plus (Number (real a)) (Number (real b)) = Number (real (a + b))"
  using js_round_nat [of "a + b"] by simp


text \<open>One percentage: the two roundings, their range and their error.\<close>

lemma quotient_range:
  assumes "b \<le> T" and "0 < T" and "T < 2 ^ 53"
  shows "0 \<le> real b / real T" and "real b / real T \<le> 1"
    and "real b / real T = 0 \<or> 2 powi (- 1022) \<le> real b / real T"
    and "real b / real T = 0 \<or> 2 powi (- 53) \<le> real b / real T"
proof -
  show "0 \<le> real b / real T" by simp
  show "real b / real T \<le> 1" using assms(1,2) by simp
  have T: "real T < 2 ^ 53" using assms(3) by (metis of_nat_less_iff of_nat_numeral of_nat_power)
  show 4: "real b / real T = 0 \<or> 2 powi (- 53) \<le> real b / real T"
  proof (cases "b = 0")
    case True
    then show ?thesis by simp
  next
    case False
    then have "1 \<le> real b" by simp
    then have "1 / 2 ^ 53 \<le> real b / real T"
      using T assms(2) by (intro frac_le) simp_all
    then show ?thesis by (simp add: power_int_minus inverse_eq_divide)
  qed
  have "(2::real) powi (- 1022) \<le> 2 powi (- 53)" by (intro power_int_increasing) simp_all
  with 4 show "real b / real T = 0 \<or> 2 powi (- 1022) \<le> real b / real T" by linarith
qed

lemma fl_quotient_range:
  assumes "b \<le> T" and "0 < T" and "T < 2 ^ 53"
  shows "0 \<le> fl (real b / real T)" and "fl (real b / real T) \<le> 1"
    and "fl (real b / real T) = 0 \<or> 2 powi (- 53) \<le> fl (real b / real T)"
proof -
  note q = quotient_range [OF assms]
  show "0 \<le> fl (real b / real T)" using q(1) by (rule fl_nonneg)
  show "fl (real b / real T) \<le> 1" using fl_mono [OF q(2)] by (simp add: fl_1)
  from q(4) show "fl (real b / real T) = 0 \<or> 2 powi (- 53) \<le> fl (real b / real T)"
  proof
    assume "real b / real T = 0"
    then have "fl (real b / real T) = 0" by (simp only: fl_0)
    then show ?thesis ..
  next
    assume "2 powi (- 53) \<le> real b / real T"
    then have "fl (2 powi (- 53)) \<le> fl (real b / real T)" by (rule fl_mono)
    moreover have "fl (2 powi (- 53)) = 2 powi (- 53)" by (rule fl_pow2) simp
    ultimately have "2 powi (- 53) \<le> fl (real b / real T)" by simp
    then show ?thesis ..
  qed
qed

lemma double_percent_range:
  assumes "b \<le> T" and "0 < T" and "T < 2 ^ 53"
  shows "0 \<le> double_percent b T" and "double_percent b T \<le> 100"
proof -
  note r = fl_quotient_range [OF assms]
  show "0 \<le> double_percent b T"
    unfolding double_percent_def using r(1) by (intro fl_nonneg) simp
  have "fl (real b / real T) * 100 \<le> 100" using r(2) by simp
  from fl_mono [OF this] show "double_percent b T \<le> 100"
    unfolding double_percent_def by (simp add: fl_100)
qed

lemma double_percent_upper:
  assumes "b \<le> T" and "0 < T" and "T < 2 ^ 53"
  shows "double_percent b T \<le> 100 * real b / real T * (1 + 1 / 2 ^ 53)\<^sup>2"
proof -
  note q = quotient_range [OF assms] and r = fl_quotient_range [OF assms]
  let ?x = "real b / real T" and ?u = "1 + 1 / 2 ^ 53 :: real"
  have 1: "fl ?x \<le> ?x * ?u" using q(1,3) by (rule fl_upper)
  have "(2::real) powi (- 1022) \<le> 2 powi (- 53)" by (intro power_int_increasing) simp_all
  with r(3) have "fl ?x * 100 = 0 \<or> 2 powi (- 1022) \<le> fl ?x * 100"
    using r(1) by (auto intro: order_trans)
  moreover have "0 \<le> fl ?x * 100" using r(1) by simp
  ultimately have "fl (fl ?x * 100) \<le> fl ?x * 100 * ?u" by (intro fl_upper)
  also have "\<dots> \<le> (?x * ?u) * 100 * ?u"
    using 1 by (intro mult_right_mono) simp_all
  also have "\<dots> = 100 * real b / real T * ?u\<^sup>2" by (simp add: power2_eq_square)
  finally show ?thesis unfolding double_percent_def .
qed

lemma double_percent_lower:
  assumes "b \<le> T" and "0 < T" and "T < 2 ^ 53"
  shows "100 * real b / real T * (1 - 1 / 2 ^ 53)\<^sup>2 \<le> double_percent b T"
proof -
  note q = quotient_range [OF assms] and r = fl_quotient_range [OF assms]
  let ?x = "real b / real T" and ?u = "1 - 1 / 2 ^ 53 :: real"
  have 1: "?x * ?u \<le> fl ?x" using q(1,3) by (rule fl_lower)
  have "(2::real) powi (- 1022) \<le> 2 powi (- 53)" by (intro power_int_increasing) simp_all
  with r(3) have "fl ?x * 100 = 0 \<or> 2 powi (- 1022) \<le> fl ?x * 100"
    using r(1) by (auto intro: order_trans)
  moreover have "0 \<le> fl ?x * 100" using r(1) by simp
  ultimately have 2: "fl ?x * 100 * ?u \<le> fl (fl ?x * 100)" by (intro fl_lower)
  have "100 * real b / real T * ?u\<^sup>2 = (?x * ?u) * 100 * ?u" by (simp add: power2_eq_square)
  also have "\<dots> \<le> fl ?x * 100 * ?u"
    using 1 by (intro mult_right_mono) simp_all
  also note 2
  finally show ?thesis unfolding double_percent_def .
qed

lemma double_percent_mono:
  assumes "a \<le> b"
  shows "double_percent a T \<le> double_percent b T"
proof -
  have "real a / real T \<le> real b / real T" using assms by (simp add: divide_right_mono)
  then have "fl (real a / real T) * 100 \<le> fl (real b / real T) * 100"
    using fl_mono by simp
  then show ?thesis unfolding double_percent_def by (rule fl_mono)
qed

lemma percent_double:
  assumes "b \<le> T" and "0 < T" and "T < 2 ^ 53"
  shows "js_times (js_div (Number (real b)) (Number (real T))) 100 = Number (double_percent b T)"
proof -
  note r = fl_quotient_range [OF assms] and q = quotient_range [OF assms]
  have "js_div (Number (real b)) (Number (real T)) = js_round (real b / real T)"
    using assms(2) by simp
  also have "\<dots> = Number (fl (real b / real T))"
    using q(1,2) by (intro js_round_small) simp_all
  finally have 1: "js_div (Number (real b)) (Number (real T)) = Number (fl (real b / real T))" .
  have "\<bar>fl (real b / real T) * 100\<bar> \<le> 2 ^ 53" using r(1,2) by simp
  then have "js_round (fl (real b / real T) * 100) = Number (double_percent b T)"
    unfolding double_percent_def by (rule js_round_small) simp
  then show ?thesis unfolding 1 by simp
qed

lemma is_percent_double:
  "b \<le> T \<Longrightarrow> 0 < T \<Longrightarrow> T < 2 ^ 53 \<Longrightarrow> is_percent (Number (double_percent b T))"
  unfolding is_percent_def using double_percent_range [of b T]
  by (auto simp: double_percent_def)

lemma compare_percents:
  assumes "is_percent x" and "is_percent y"
  shows "js_positive (js_minus y x) \<longleftrightarrow> percent_value x < percent_value y"
proof -
  from assms obtain r s where x: "x = Number (fl r)" and y: "y = Number (fl s)"
    and rx: "0 \<le> fl r" "fl r \<le> 100" and ry: "0 \<le> fl s" "fl s \<le> 100"
    unfolding is_percent_def by blast
  have "\<bar>fl s - fl r\<bar> \<le> 2 ^ 53" using rx ry by simp
  then have "js_round (fl s - fl r) = Number (fl (fl s - fl r))" by (rule js_round_small) simp
  then show ?thesis by (simp add: x y fl_difference_sign)
qed

lemma double_percent_error:
  assumes "b \<le> T" and "0 < T" and "T < 2 ^ 53"
  shows "\<bar>double_percent b T - 100 * real b / real T\<bar> \<le> 100 * real b / real T * (3 / 2 ^ 53)"
proof -
  let ?X = "100 * real b / real T"
  have X: "0 \<le> ?X" by simp
  have "double_percent b T \<le> ?X * (1 + 1 / 2 ^ 53)\<^sup>2" using assms by (rule double_percent_upper)
  also have "\<dots> \<le> ?X * (1 + 3 / 2 ^ 53)"
    using X by (intro mult_left_mono) (simp_all add: power2_eq_square)
  finally have up: "double_percent b T - ?X \<le> ?X * (3 / 2 ^ 53)" by (simp add: algebra_simps)
  have "?X * (1 - 3 / 2 ^ 53) \<le> ?X * (1 - 1 / 2 ^ 53)\<^sup>2"
    using X by (intro mult_left_mono) (simp_all add: power2_eq_square)
  also have "\<dots> \<le> double_percent b T" using assms by (rule double_percent_lower)
  finally have lo: "?X - double_percent b T \<le> ?X * (3 / 2 ^ 53)" by (simp add: algebra_simps)
  from up lo show ?thesis by (simp only: abs_le_iff minus_diff_eq)
qed


section \<open>Language aggregator: accumulation and sorting facts\<close>

lemma mset_object_entries: "mset (object_entries kvs) = mset kvs"
  by (simp add: object_entries_def)

lemma set_object_entries: "set (object_entries kvs) = set kvs"
  using mset_object_entries [of kvs] by (rule mset_eq_setD)

lemma length_object_entries: "length (object_entries kvs) = length kvs"
  using mset_object_entries [of kvs] by (rule mset_eq_length)

lemma distinct_object_entries: "distinct (map fst (object_entries kvs)) = distinct (map fst kvs)"
proof -
  have "mset (map fst (object_entries kvs)) = mset (map fst kvs)"
    by (simp add: mset_object_entries)
  then show ?thesis by (rule mset_eq_imp_distinct_iff)
qed

lemma sum_sizes_object_entries: "sum_sizes (object_entries t) = sum_sizes t"
proof -
  have "sum_mset (image_mset (\<lambda>kv. bytes_of (size' (snd kv))) (mset (object_entries t)))
      = sum_mset (image_mset (\<lambda>kv. bytes_of (size' (snd kv))) (mset t))"
    by (simp only: mset_object_entries)
  then show ?thesis unfolding sum_sizes_def by (simp only: mset_map [symmetric] sum_mset_sum_list)
qed

lemma map_fst_add_size: "map fst (add_size n s t) = map fst t"
  by (induction t) auto

lemma map_of_add_size:
  "map_of (add_size n s t) k =
     (if k = n then map_option (\<lambda>v. v\<lparr>size' := js_plus (size' v) s\<rparr>) (map_of t k) else map_of t k)"
  by (induction t) auto

lemma recorded_size_add_size:
  "recorded_size (add_size n s t) k =
     (if k = n \<and> n \<in> set (map fst t) then js_plus (recorded_size t k) s else recorded_size t k)"
proof (cases "map_of t n")
  case None
  then have "n \<notin> set (map fst t)" by (simp add: map_of_eq_None_iff)
  with None show ?thesis by (simp add: recorded_size_def map_of_add_size)
next
  case (Some v)
  then have "(n, v) \<in> set t" by (rule map_of_SomeD)
  then have "n \<in> set (map fst t)" by force
  with Some show ?thesis by (simp add: recorded_size_def map_of_add_size)
qed

lemma sum_sizes_add_size:
  assumes "n \<in> set (map fst t)" and "recorded_size t n = Number (real b)" and "b + s < 2 ^ 53"
  shows "sum_sizes (add_size n (Number (real s)) t) = sum_sizes t + s"
  using assms(1,2)
proof (induction t)
  case Nil
  then show ?case by simp
next
  case (Cons kv t)
  obtain k v where kv: "kv = (k, v)" by (cases kv)
  show ?case
  proof (cases "k = n")
    case True
    with Cons.prems(2) have "size' v = Number (real b)" by (simp add: kv recorded_size_def)
    then show ?thesis using True js_plus_nat [OF assms(3)] by (simp add: kv sum_sizes_def)
  next
    case False
    with Cons.prems have "n \<in> set (map fst t)" and "recorded_size t n = Number (real b)"
      by (simp_all add: kv recorded_size_def)
    from Cons.IH [OF this] False show ?thesis by (simp add: kv sum_sizes_def)
  qed
qed

lemma bytes_named_snoc:
  "bytes_named (es @ [e]) k = bytes_named es k + (if name (node e) = k then edge_bytes e else 0)"
  by (simp add: bytes_named_def)

lemma bytes_named_le: "bytes_named es k \<le> sum_list (map edge_bytes es)"
  unfolding bytes_named_def by (rule sum_list_filter_le_nat)

lemma represents_add_edge:
  assumes "represents t es" and "name (node e) \<notin> set OBJECT_PROTOTYPE_MEMBERS"
    and bound: "sum_list (map edge_bytes (es @ [e])) < 2 ^ 53"
  shows "represents (add_edge t e) (es @ [e])"
proof -
  let ?n = "name (node e)"
  define t1 where "t1 = (if map_of t ?n = None
       then t @ [(?n, \<lparr>size' = Number 0,
               total_color =
                 (case color (node e) of
                    None \<Rightarrow> ''#9e9e9e''
                  | Some c \<Rightarrow> if c = '''' then ''#9e9e9e'' else c)\<rparr>)]
       else t)"
  have eb: "edge_bytes e < 2 ^ 53" using bound by simp
  have sz: "(case edge_size e of Some s \<Rightarrow> js_round (real s) | None \<Rightarrow> Number 0)
      = Number (real (edge_bytes e))"
    using js_round_nat [OF eb] by (simp add: edge_bytes_def nullish_def split: option.splits)
  have ae: "add_edge t e = add_size ?n (Number (real (edge_bytes e))) t1"
    using assms(2) by (simp add: add_edge_def Let_def t1_def sz)
  from assms(1) have d: "distinct (map fst t)"
    and k: "set (map fst t) = set (map (\<lambda>e. name (node e)) es)"
    and r: "\<And>k. recorded_size t k = Number (real (bytes_named es k))"
    and s: "sum_sizes t = sum_list (map edge_bytes es)"
    unfolding represents_def by blast+
  have none_iff: "map_of t ?n = None \<longleftrightarrow> ?n \<notin> set (map fst t)"
    by (simp add: map_of_eq_None_iff)
  have d1: "distinct (map fst t1)" using d none_iff by (simp add: t1_def)
  have k1: "set (map fst t1) = insert ?n (set (map fst t))"
    using none_iff by (auto simp: t1_def)
  have in1: "?n \<in> set (map fst t1)" using k1 by simp
  have rs1: "recorded_size t1 k = recorded_size t k" for k
    by (auto simp: recorded_size_def t1_def map_add_def split: option.splits)
  have ss1: "sum_sizes t1 = sum_sizes t" by (simp add: t1_def sum_sizes_def)
  have small: "bytes_named es ?n + edge_bytes e < 2 ^ 53"
    using bytes_named_le [of es ?n] bound by simp
  have "distinct (map fst (add_edge t e))"
    by (simp add: ae map_fst_add_size d1)
  moreover have "set (map fst (add_edge t e)) = set (map (\<lambda>e. name (node e)) (es @ [e]))"
    unfolding ae map_fst_add_size k1 k by simp
  moreover have "recorded_size (add_edge t e) k = Number (real (bytes_named (es @ [e]) k))" for k
    unfolding ae recorded_size_add_size bytes_named_snoc rs1 r
    using in1 js_plus_nat [OF small] by simp
  moreover have "sum_sizes (add_edge t e) = sum_list (map edge_bytes (es @ [e]))"
    unfolding ae using sum_sizes_add_size [OF in1 _ small, unfolded rs1, OF r] ss1 s by simp
  ultimately show ?thesis unfolding represents_def by blast
qed

lemma add_edge_dropped:
  "name (node e) \<in> set OBJECT_PROTOTYPE_MEMBERS \<Longrightarrow> add_edge t e = t"
  by (simp add: add_edge_def Let_def)

lemma recorded_append: "recorded (es @ es') = recorded es @ recorded es'"
  by (simp add: recorded_def)

lemma represents_foldl_add_edge:
  assumes "represents t es" and "sum_list (map edge_bytes (es @ recorded es')) < 2 ^ 53"
  shows "represents (foldl add_edge t es') (es @ recorded es')"
  using assms
proof (induction es' arbitrary: t es)
  case Nil
  then show ?case by (simp add: recorded_def)
next
  case (Cons e es')
  show ?case
  proof (cases "name (node e) \<in> set OBJECT_PROTOTYPE_MEMBERS")
    case True
    then have "recorded (e # es') = recorded es'" by (simp add: recorded_def)
    with Cons.IH [of t es] Cons.prems add_edge_dropped [OF True] show ?thesis by simp
  next
    case False
    then have rec: "recorded (e # es') = e # recorded es'" by (simp add: recorded_def)
    have "sum_list (map edge_bytes (es @ [e])) < 2 ^ 53" using Cons.prems(2) by (simp add: rec)
    with Cons.prems(1) False have "represents (add_edge t e) (es @ [e])" by (intro represents_add_edge)
    moreover have "sum_list (map edge_bytes ((es @ [e]) @ recorded es')) < 2 ^ 53"
      using Cons.prems(2) by (simp add: rec)
    ultimately have "represents (foldl add_edge (add_edge t e) es') ((es @ [e]) @ recorded es')"
      by (rule Cons.IH)
    then show ?thesis by (simp add: rec)
  qed
qed

lemma represents_foldl_add_repo:
  assumes "represents t es"
    and "sum_list (map edge_bytes
           (es @ recorded (concat (map (\<lambda>repo. nullish (languages repo) []) rs)))) < 2 ^ 53"
  shows "represents (foldl add_repo t rs)
           (es @ recorded (concat (map (\<lambda>repo. nullish (languages repo) []) rs)))"
  using assms
proof (induction rs arbitrary: t es)
  case Nil
  then show ?case by (simp add: recorded_def)
next
  case (Cons r rs)
  have 1: "represents (add_repo t r) (es @ recorded (nullish (languages r) []))"
    unfolding add_repo_def using Cons.prems by (intro represents_foldl_add_edge) (simp_all add: recorded_append)
  have "represents (foldl add_repo (add_repo t r) rs)
      ((es @ recorded (nullish (languages r) []))
         @ recorded (concat (map (\<lambda>repo. nullish (languages repo) []) rs)))"
    using 1 Cons.prems(2) by (intro Cons.IH) (simp_all add: recorded_append)
  then show ?case by (simp add: recorded_append)
qed

lemma represents_foldl_add_page:
  assumes "represents t es" and "sum_list (map edge_bytes (es @ recorded (edges_of pages))) < 2 ^ 53"
  shows "represents (foldl add_page t pages) (es @ recorded (edges_of pages))"
  using assms
proof (induction pages arbitrary: t es)
  case Nil
  then show ?case by (simp add: edges_of_def recorded_def)
next
  case (Cons p pages)
  have split: "edges_of (p # pages) = edges_of [p] @ edges_of pages" by (simp add: edges_of_def)
  have e1: "edges_of [p] = concat (map (\<lambda>repo. nullish (languages repo) []) (nullish (nodes p) []))"
    by (simp add: edges_of_def)
  have b1: "sum_list (map edge_bytes (es @ recorded (edges_of [p]))) < 2 ^ 53"
    using Cons.prems(2) by (simp add: split recorded_append)
  have 1: "represents (add_page t p) (es @ recorded (edges_of [p]))"
    unfolding add_page_def e1 using Cons.prems(1) b1 [unfolded e1] by (rule represents_foldl_add_repo)
  have "represents (foldl add_page (add_page t p) pages) ((es @ recorded (edges_of [p])) @ recorded (edges_of pages))"
    using 1 Cons.prems(2) by (intro Cons.IH) (simp_all add: split recorded_append)
  then show ?case by (simp add: split recorded_append)
qed

lemma represents_empty: "represents [] []"
  by (simp add: represents_def recorded_size_def bytes_named_def sum_sizes_def)

lemma represents_pages:
  "recorded_bytes pages < 2 ^ 53 \<Longrightarrow> represents (foldl add_page [] pages) (recorded (edges_of pages))"
  using represents_foldl_add_page [OF represents_empty, of pages] by (simp add: recorded_bytes_def)

lemma fetch_loop_complete:
  "complete pages \<Longrightarrow>
   fetch_loop t (map Inr pages) =
     (Some (Inr (foldl add_page t pages)), replicate (length pages) (NetworkCall ''graphql''))"
proof (induction pages arbitrary: t)
  case Nil
  then show ?case by (simp add: complete_def)
next
  case (Cons p pages)
  show ?case
  proof (cases "pages = []")
    case True
    with Cons.prems show ?thesis by (simp add: complete_def)
  next
    case False
    with Cons.prems have "complete pages" and "hasNextPage p = Some True"
      by (simp_all add: complete_def)
    with Cons.IH [of "add_page t p"] show ?thesis by simp
  qed
qed

lemma set_insort_cmp: "set (insort_cmp c x ys) = insert x (set ys)"
  by (induction ys) auto

lemma length_insort_cmp: "length (insort_cmp c x ys) = Suc (length ys)"
  by (induction ys) auto

lemma sum_insort_cmp:
  fixes f :: "'a \<Rightarrow> real"
  shows "sum_list (map f (insort_cmp c x ys)) = f x + sum_list (map f ys)"
  by (induction ys) auto

lemma set_sort_cmp: "set (sort_cmp c xs) = set xs"
  by (induction xs) (auto simp: sort_cmp_def set_insort_cmp)

lemma length_sort_cmp: "length (sort_cmp c xs) = length xs"
  by (induction xs) (auto simp: sort_cmp_def length_insort_cmp)

lemma sum_sort_cmp:
  fixes f :: "'a \<Rightarrow> real"
  shows "sum_list (map f (sort_cmp c xs)) = sum_list (map f xs)"
  by (induction xs) (auto simp: sort_cmp_def sum_insort_cmp)

lemma sorted_insort_cmp:
  assumes "is_percent (percent x)" and "\<forall>y\<in>set ys. is_percent (percent y)"
    and "sorted_wrt (\<lambda>a b. percent_value (percent b) \<le> percent_value (percent a)) ys"
  shows "sorted_wrt (\<lambda>a b. percent_value (percent b) \<le> percent_value (percent a))
           (insort_cmp (\<lambda>a b. js_minus (percent b) (percent a)) x ys)"
  using assms
proof (induction ys)
  case Nil
  then show ?case by simp
next
  case (Cons y ys)
  from Cons.prems have py: "is_percent (percent y)" by simp
  note cmp = compare_percents [OF Cons.prems(1) py]
  show ?case
  proof (cases "js_positive (js_minus (percent y) (percent x))")
    case True
    then have "percent_value (percent x) < percent_value (percent y)" by (simp only: cmp)
    moreover have "sorted_wrt (\<lambda>a b. percent_value (percent b) \<le> percent_value (percent a))
           (insort_cmp (\<lambda>a b. js_minus (percent b) (percent a)) x ys)"
      using Cons.prems by (intro Cons.IH) simp_all
    ultimately show ?thesis using True Cons.prems(3) by (auto simp: set_insort_cmp)
  next
    case False
    then have "percent_value (percent y) \<le> percent_value (percent x)"
      by (simp only: cmp not_less)
    then show ?thesis using False Cons.prems(3) by auto
  qed
qed

lemma sorted_sort_cmp:
  assumes "\<forall>y\<in>set xs. is_percent (percent y)"
  shows "sorted_wrt (\<lambda>a b. percent_value (percent b) \<le> percent_value (percent a))
           (sort_cmp (\<lambda>a b. js_minus (percent b) (percent a)) xs)"
  using assms
proof (induction xs)
  case Nil
  then show ?case by (simp add: sort_cmp_def)
next
  case (Cons x xs)
  have "sorted_wrt (\<lambda>a b. percent_value (percent b) \<le> percent_value (percent a))
           (insort_cmp (\<lambda>a b. js_minus (percent b) (percent a)) x
              (sort_cmp (\<lambda>a b. js_minus (percent b) (percent a)) xs))"
    using Cons by (intro sorted_insort_cmp) (simp_all add: set_sort_cmp)
  then show ?case by (simp add: sort_cmp_def)
qed

lemma distinct_map_insort_cmp:
  "distinct (map f (insort_cmp c x ys)) \<longleftrightarrow> f x \<notin> f ` set ys \<and> distinct (map f ys)"
  by (induction ys) (auto simp: set_insort_cmp)

lemma distinct_map_sort_cmp: "distinct (map f (sort_cmp c xs)) = distinct (map f xs)"
  by (induction xs) (auto simp: sort_cmp_def distinct_map_insort_cmp set_sort_cmp [unfolded sort_cmp_def])

lemma foldl_sizes:
  assumes "\<forall>kv\<in>set xs. \<exists>n. size' (snd kv) = Number (real n)" and "a + sum_sizes xs < 2 ^ 53"
  shows "foldl (\<lambda>a v. js_plus a (size' v)) (Number (real a)) (map snd xs)
           = Number (real (a + sum_sizes xs))"
  using assms
proof (induction xs arbitrary: a)
  case Nil
  then show ?case by (simp add: sum_sizes_def)
next
  case (Cons kv xs)
  from Cons.prems(1) obtain n where n: "size' (snd kv) = Number (real n)" by auto
  have ss: "sum_sizes (kv # xs) = n + sum_sizes xs" by (simp add: sum_sizes_def n)
  have "a + n < 2 ^ 53" using Cons.prems(2) by (simp add: ss)
  then have step: "js_plus (Number (real a)) (size' (snd kv)) = Number (real (a + n))"
    unfolding n by (rule js_plus_nat)
  have "foldl (\<lambda>a v. js_plus a (size' v)) (Number (real (a + n))) (map snd xs)
           = Number (real ((a + n) + sum_sizes xs))"
    using Cons.prems by (intro Cons.IH) (simp_all add: ss)
  then show ?case by (simp add: step ss add.assoc)
qed

lemma sum_take_le:
  fixes f :: "'a \<Rightarrow> real"
  assumes "\<forall>x\<in>set xs. 0 \<le> f x"
  shows "sum_list (map f (take n xs)) \<le> sum_list (map f xs)"
proof -
  have "sum_list (map f xs) = sum_list (map f (take n xs)) + sum_list (map f (drop n xs))"
    by (metis append_take_drop_id map_append sum_list.append)
  moreover have "0 \<le> sum_list (map f (drop n xs))"
    using assms by (intro sum_list_nonneg) (auto dest: in_set_dropD)
  ultimately show ?thesis by simp
qed

lemma sum_scaled_sizes:
  "sum_list (map (\<lambda>kv. 100 * real (bytes_of (size' (snd kv))) / d * c) t)
     = 100 * real (sum_sizes t) / d * c"
  by (induction t) (simp_all add: sum_sizes_def add_divide_distrib distrib_left distrib_right)


text \<open>The entries and the shares of totals that hold the edges \<open>es\<close>.\<close>

lemma represents_entries:
  assumes "represents t es"
  shows "\<forall>kv\<in>set t. size' (snd kv) = Number (real (bytes_named es (fst kv)))"
proof
  fix kv assume kv: "kv \<in> set t"
  obtain n v where nv: "kv = (n, v)" by (cases kv)
  from assms have d: "distinct (map fst t)"
    and r: "recorded_size t n = Number (real (bytes_named es n))"
    unfolding represents_def by blast+
  from d kv have "map_of t n = Some v" by (simp add: nv)
  with r show "size' (snd kv) = Number (real (bytes_named es (fst kv)))"
    by (simp add: recorded_size_def nv)
qed

lemma language_shares_unfold:
  assumes rep: "represents t es" and bound: "sum_list (map edge_bytes es) < 2 ^ 53"
  shows "language_shares t =
     take 6 (sort_cmp (\<lambda>a b. js_minus (percent b) (percent a))
       (map (\<lambda>(name, v). \<lparr>share_name = name, share_color = total_color v,
                percent = js_times (js_div (size' v) (Number (real (sum_list (map edge_bytes es))))) 100\<rparr>)
          (object_entries t)))"
proof -
  from rep have s: "sum_sizes t = sum_list (map edge_bytes es)" unfolding represents_def by blast
  have "\<forall>kv\<in>set (object_entries t). \<exists>n. size' (snd kv) = Number (real n)"
    unfolding set_object_entries using represents_entries [OF rep] by blast
  moreover have "0 + sum_sizes (object_entries t) < 2 ^ 53"
    using bound by (simp add: sum_sizes_object_entries s)
  ultimately have "foldl (\<lambda>a v. js_plus a (size' v)) (Number (real 0)) (map snd (object_entries t))
      = Number (real (0 + sum_sizes (object_entries t)))"
    by (rule foldl_sizes)
  then have "foldl (\<lambda>a v. js_plus a (size' v)) (Number 0) (map snd (object_entries t))
      = Number (real (sum_list (map edge_bytes es)))"
    by (simp add: sum_sizes_object_entries s)
  then show ?thesis by (simp add: language_shares_def)
qed

lemma language_shares_represents:
  assumes rep: "represents t es" and pos: "0 < sum_list (map edge_bytes es)"
    and bound: "sum_list (map edge_bytes es) < 2 ^ 53"
  shows "(\<forall>e\<in>set (language_shares t).
            percent e = Number (double_percent (bytes_named es (share_name e))
                                  (sum_list (map edge_bytes es)))) \<and>
         sorted_wrt (\<lambda>a b. percent_value (percent b) \<le> percent_value (percent a)) (language_shares t) \<and>
         length (language_shares t) \<le> 6 \<and>
         sum_list (map (\<lambda>e. percent_value (percent e)) (language_shares t))
           \<le> 100 * (1 + 1 / 2 ^ 53)\<^sup>2"
proof -
  define T where "T = sum_list (map edge_bytes es)"
  let ?mk = "\<lambda>(name, v). \<lparr>share_name = name, share_color = total_color v,
                       percent = js_times (js_div (size' v) (Number (real T))) 100\<rparr>"
  let ?c = "\<lambda>a b. js_minus (percent b) (percent a)"
  let ?raw = "map ?mk (object_entries t)"
  from pos have tpos: "0 < T" by (simp only: T_def)
  from bound have tb: "T < 2 ^ 53" by (simp only: T_def)
  from rep have s: "sum_sizes t = T" unfolding represents_def T_def by blast
  note ent = represents_entries [OF rep]
  have ls: "language_shares t = take 6 (sort_cmp ?c ?raw)"
    unfolding T_def using rep bound by (rule language_shares_unfold)
  have le: "bytes_named es n \<le> T" for n unfolding T_def by (rule bytes_named_le)
  have mk: "?mk (n, v) = \<lparr>share_name = n, share_color = total_color v,
              percent = Number (double_percent (bytes_named es n) T)\<rparr>"
    if "(n, v) \<in> set t" for n v
    using ent that percent_double [OF le tpos tb, of n] by auto
  have raw_pct: "percent e = Number (double_percent (bytes_named es (share_name e)) T)"
    if "e \<in> set ?raw" for e
  proof -
    from that obtain n v where nv: "(n, v) \<in> set t" and e: "e = ?mk (n, v)"
      unfolding set_map set_object_entries by auto
    show ?thesis unfolding e mk [OF nv] by simp
  qed
  have sub: "set (language_shares t) \<subseteq> set ?raw"
    unfolding ls using set_take_subset [of 6 "sort_cmp ?c ?raw"] by (simp add: set_sort_cmp)
  have 1: "\<forall>e\<in>set (language_shares t).
            percent e = Number (double_percent (bytes_named es (share_name e)) T)"
    using sub raw_pct by blast
  have num: "\<forall>y\<in>set ?raw. is_percent (percent y)"
    using raw_pct is_percent_double [OF le tpos tb] by simp
  have 2: "sorted_wrt (\<lambda>a b. percent_value (percent b) \<le> percent_value (percent a)) (language_shares t)"
    unfolding ls by (intro sorted_wrt_take sorted_sort_cmp num)
  have 3: "length (language_shares t) \<le> 6" unfolding ls by simp
  have nonneg: "\<forall>x\<in>set (sort_cmp ?c ?raw). 0 \<le> percent_value (percent x)"
    unfolding set_sort_cmp using raw_pct double_percent_range(1) [OF le tpos tb] by simp
  have "sum_list (map (\<lambda>e. percent_value (percent e)) ?raw)
          = sum_list (map (\<lambda>kv. percent_value (percent (?mk kv))) (object_entries t))"
    by (simp add: comp_def)
  also have "\<dots> \<le> sum_list (map (\<lambda>kv. 100 * real (bytes_of (size' (snd kv))) / real T
                                          * (1 + 1 / 2 ^ 53)\<^sup>2) (object_entries t))"
  proof (rule sum_list_mono)
    fix kv assume "kv \<in> set (object_entries t)"
    then have kv: "kv \<in> set t" by (simp only: set_object_entries)
    obtain n v where nv: "kv = (n, v)" by (cases kv)
    from ent kv have sz: "size' v = Number (real (bytes_named es n))" by (auto simp: nv)
    show "percent_value (percent (?mk kv))
        \<le> 100 * real (bytes_of (size' (snd kv))) / real T * (1 + 1 / 2 ^ 53)\<^sup>2"
      using double_percent_upper [OF le tpos tb, of n] mk [of n v] kv
      by (simp add: nv sz)
  qed
  also have "\<dots> = 100 * real (sum_sizes (object_entries t)) / real T * (1 + 1 / 2 ^ 53)\<^sup>2"
    by (rule sum_scaled_sizes)
  also have "\<dots> = 100 * (1 + 1 / 2 ^ 53)\<^sup>2"
    using tpos by (simp add: sum_sizes_object_entries s)
  finally have tot: "sum_list (map (\<lambda>e. percent_value (percent e)) ?raw)
      \<le> 100 * (1 + 1 / 2 ^ 53)\<^sup>2" .
  have "sum_list (map (\<lambda>e. percent_value (percent e)) (language_shares t))
          \<le> sum_list (map (\<lambda>e. percent_value (percent e)) (sort_cmp ?c ?raw))"
    unfolding ls using nonneg by (rule sum_take_le)
  also have "\<dots> = sum_list (map (\<lambda>e. percent_value (percent e)) ?raw)" by (rule sum_sort_cmp)
  also note tot
  finally have 4: "sum_list (map (\<lambda>e. percent_value (percent e)) (language_shares t))
      \<le> 100 * (1 + 1 / 2 ^ 53)\<^sup>2" .
  from 1 2 3 4 show ?thesis unfolding T_def by blast
qed

lemma language_shares_top:
  assumes rep: "represents t es" and pos: "0 < sum_list (map edge_bytes es)"
    and bound: "sum_list (map edge_bytes es) < 2 ^ 53"
  shows "distinct (map share_name (language_shares t)) \<and>
         set (map share_name (language_shares t)) \<subseteq> set (map (\<lambda>e. name (node e)) es) \<and>
         length (language_shares t) = min 6 (card (set (map (\<lambda>e. name (node e)) es))) \<and>
         (\<forall>n\<in>set (map (\<lambda>e. name (node e)) es). n \<notin> set (map share_name (language_shares t)) \<longrightarrow>
            (\<forall>e\<in>set (language_shares t).
               double_percent (bytes_named es n) (sum_list (map edge_bytes es))
                 \<le> percent_value (percent e)))"
proof -
  define T where "T = sum_list (map edge_bytes es)"
  let ?mk = "\<lambda>(name, v). \<lparr>share_name = name, share_color = total_color v,
                       percent = js_times (js_div (size' v) (Number (real T))) 100\<rparr>"
  let ?c = "\<lambda>a b. js_minus (percent b) (percent a)"
  let ?raw = "map ?mk (object_entries t)"
  let ?S = "sort_cmp ?c ?raw"
  let ?le = "\<lambda>a b. percent_value (percent b) \<le> percent_value (percent a)"
  from pos have tpos: "0 < T" by (simp only: T_def)
  from bound have tb: "T < 2 ^ 53" by (simp only: T_def)
  from rep have d: "distinct (map fst t)"
    and k: "set (map fst t) = set (map (\<lambda>e. name (node e)) es)"
    unfolding represents_def by blast+
  note ent = represents_entries [OF rep]
  have ls: "language_shares t = take 6 ?S"
    unfolding T_def using rep bound by (rule language_shares_unfold)
  have le: "bytes_named es n \<le> T" for n unfolding T_def by (rule bytes_named_le)
  have names_raw: "map share_name ?raw = map fst (object_entries t)"
    by (simp add: case_prod_unfold comp_def)
  have dS: "distinct (map share_name ?S)"
    unfolding distinct_map_sort_cmp names_raw distinct_object_entries by (rule d)
  have setS: "set ?S = set ?raw" by (rule set_sort_cmp)
  have raw_pct: "percent e = Number (double_percent (bytes_named es (share_name e)) T)"
    if "e \<in> set ?raw" for e
  proof -
    from that obtain n v where nv: "(n, v) \<in> set t" and e: "e = ?mk (n, v)"
      unfolding set_map set_object_entries by auto
    from ent nv have "size' v = Number (real (bytes_named es n))" by auto
    then show ?thesis unfolding e using percent_double [OF le tpos tb, of n] by simp
  qed
  have 1: "distinct (map share_name (language_shares t))"
    unfolding ls take_map [symmetric] using dS by (rule distinct_take)
  have "set (map share_name ?S) = share_name ` set ?raw"
    by (simp only: set_map setS)
  also have "\<dots> = set (map share_name ?raw)" by (simp only: set_map)
  also have "\<dots> = fst ` set (object_entries t)" by (simp only: names_raw set_map)
  also have "\<dots> = set (map fst t)" by (simp only: set_object_entries set_map)
  finally have namesS: "set (map share_name ?S) = set (map (\<lambda>e. name (node e)) es)"
    using k by simp
  have 2: "set (map share_name (language_shares t)) \<subseteq> set (map (\<lambda>e. name (node e)) es)"
    unfolding ls namesS [symmetric] take_map [symmetric] by (rule set_take_subset)
  have "card (set (map fst t)) = length (map fst t)" using d by (rule distinct_card)
  then have "length t = card (set (map fst t))" by simp
  then have 3: "length (language_shares t) = min 6 (card (set (map (\<lambda>e. name (node e)) es)))"
    unfolding ls k by (simp add: length_sort_cmp length_object_entries min.commute)
  have num: "\<forall>y\<in>set ?raw. is_percent (percent y)"
    using raw_pct is_percent_double [OF le tpos tb] by simp
  have "sorted_wrt ?le ?S" by (intro sorted_sort_cmp num)
  then have "sorted_wrt ?le (take 6 ?S @ drop 6 ?S)" by simp
  then have td: "\<forall>a\<in>set (take 6 ?S). \<forall>b\<in>set (drop 6 ?S). ?le a b"
    unfolding sorted_wrt_append by blast
  have 4: "double_percent (bytes_named es n) T \<le> percent_value (percent e)"
    if n: "n \<in> set (map (\<lambda>e. name (node e)) es)"
      and out: "n \<notin> set (map share_name (language_shares t))"
      and e: "e \<in> set (language_shares t)" for n e
  proof -
    from n have "n \<in> set (map share_name ?S)" unfolding namesS .
    then have "n \<in> share_name ` set ?S" by (simp only: set_map)
    then obtain x where x: "x \<in> set ?S" and xn: "share_name x = n" by blast
    from out xn have "x \<notin> set (take 6 ?S)" unfolding ls by auto
    moreover have "set ?S = set (take 6 ?S) \<union> set (drop 6 ?S)"
      by (metis append_take_drop_id set_append)
    ultimately have "x \<in> set (drop 6 ?S)" using x by blast
    with td e have "percent_value (percent x) \<le> percent_value (percent e)" unfolding ls by blast
    moreover have "percent x = Number (double_percent (bytes_named es n) T)"
      using raw_pct [of x] x setS xn by simp
    ultimately show ?thesis by simp
  qed
  from 1 2 3 4 show ?thesis unfolding T_def by blast
qed

lemma fetchTopLanguages_complete:
  assumes "complete pages"
  shows "fst (fetchTopLanguages (map Inr pages)) = Some (Inr (language_shares (foldl add_page [] pages)))"
  by (simp add: fetchTopLanguages_def fetch_loop_complete [OF assms])

lemma language_shares_zero_total:
  assumes rep: "represents t es" and zero: "sum_list (map edge_bytes es) = 0"
  shows "(\<forall>e\<in>set (language_shares t). percent e = NaN) \<and>
         (language_shares t = [] \<longleftrightarrow> es = [])"
proof -
  let ?mk = "\<lambda>(name, v). \<lparr>share_name = name, share_color = total_color v,
                       percent = js_times (js_div (size' v) (Number (real (sum_list (map edge_bytes es))))) 100\<rparr>"
  let ?c = "\<lambda>a b. js_minus (percent b) (percent a)"
  from rep have k: "set (map fst t) = set (map (\<lambda>e. name (node e)) es)"
    unfolding represents_def by simp
  have ls: "language_shares t = take 6 (sort_cmp ?c (map ?mk (object_entries t)))"
    using rep by (rule language_shares_unfold) (simp add: zero)
  have z: "size' v = Number 0" if "(n, v) \<in> set t" for n v
  proof -
    have "bytes_named es n \<le> 0" using bytes_named_le [of es n] by (simp only: zero)
    with represents_entries [OF rep] that show ?thesis by auto
  qed
  have "percent e = NaN" if "e \<in> set (map ?mk (object_entries t))" for e
    using that z unfolding set_map set_object_entries by (auto simp: zero)
  moreover have "set (language_shares t) \<subseteq> set (map ?mk (object_entries t))"
    unfolding ls using set_take_subset [of 6 "sort_cmp ?c (map ?mk (object_entries t))"]
    by (simp add: set_sort_cmp)
  ultimately have 1: "\<forall>e\<in>set (language_shares t). percent e = NaN" by blast
  have "language_shares t = [] \<longleftrightarrow> t = []"
  proof -
    have "length (language_shares t) = min (length t) 6"
      unfolding ls by (simp add: length_sort_cmp length_object_entries)
    then have "length (language_shares t) = 0 \<longleftrightarrow> length t = 0" by arith
    then show ?thesis by (simp only: length_0_conv)
  qed
  also have "\<dots> \<longleftrightarrow> es = []" using k by (cases t; cases es) auto
  finally show ?thesis using 1 by blast
qed

lemma scenario_A_run:
  "fst (fetch_loop [] (map Inr scenario_A)) =
     Some (Inr [(''JavaScript'', \<lparr>size' = Number 1000, total_color = ''#f1e05a''\<rparr>),
                (''Python'', \<lparr>size' = Number 400, total_color = ''#3572A5''\<rparr>)])"
  "fst (fetchTopLanguages (map Inr scenario_A)) =
     Some (Inr [\<lparr>share_name = ''JavaScript'', share_color = ''#f1e05a'',
                 percent = Number (5026338869833143 / 70368744177664)\<rparr>,
                \<lparr>share_name = ''Python'', share_color = ''#3572A5'',
                 percent = Number (2010535547933257 / 70368744177664)\<rparr>])"
proof -
  have j_0: "js_round (- (1507901660949943 / 35184372088832)) = Number (- (1507901660949943 / 35184372088832))"
    by (rule js_round_small, simp, subst fl_eval [where k = "5"]) (simp_all add: round_even_def)
  have j_1: "js_round (2 / 7) = Number (2573485501354569 / 9007199254740992)"
    by (rule js_round_small, simp, subst fl_eval [where k = "-2"]) (simp_all add: round_even_def)
  have j_2: "js_round (5 / 7) = Number (6433713753386423 / 9007199254740992)"
    by (rule js_round_small, simp, subst fl_eval [where k = "-1"]) (simp_all add: round_even_def)
  have j_3: "js_round (64337137533864225 / 2251799813685248) = Number (2010535547933257 / 70368744177664)"
    by (rule js_round_small, simp, subst fl_eval [where k = "4"]) (simp_all add: round_even_def)
  have j_4: "js_round (160842843834660575 / 2251799813685248) = Number (5026338869833143 / 70368744177664)"
    by (rule js_round_small, simp, subst fl_eval [where k = "6"]) (simp_all add: round_even_def)
  have j_5: "js_round (200) = Number (200)"
    by (rule js_round_small, simp, subst fl_eval [where k = "7"]) (simp_all add: round_even_def)
  have j_6: "js_round (400) = Number (400)"
    by (rule js_round_small, simp, subst fl_eval [where k = "8"]) (simp_all add: round_even_def)
  have j_7: "js_round (800) = Number (800)"
    by (rule js_round_small, simp, subst fl_eval [where k = "9"]) (simp_all add: round_even_def)
  have j_8: "js_round (1000) = Number (1000)"
    by (rule js_round_small, simp, subst fl_eval [where k = "9"]) (simp_all add: round_even_def)
  have j_9: "js_round (1400) = Number (1400)"
    by (rule js_round_small, simp, subst fl_eval [where k = "10"]) (simp_all add: round_even_def)
  show "fst (fetch_loop [] (map Inr scenario_A)) =
     Some (Inr [(''JavaScript'', \<lparr>size' = Number 1000, total_color = ''#f1e05a''\<rparr>),
                (''Python'', \<lparr>size' = Number 400, total_color = ''#3572A5''\<rparr>)])"
    by (simp add: scenario_A_def add_page_def add_repo_def add_edge_def nullish_def
        OBJECT_PROTOTYPE_MEMBERS_def j_0 j_1 j_2 j_3 j_4 j_5 j_6 j_7 j_8 j_9)
  show "fst (fetchTopLanguages (map Inr scenario_A)) =
     Some (Inr [\<lparr>share_name = ''JavaScript'', share_color = ''#f1e05a'',
                 percent = Number (5026338869833143 / 70368744177664)\<rparr>,
                \<lparr>share_name = ''Python'', share_color = ''#3572A5'',
                 percent = Number (2010535547933257 / 70368744177664)\<rparr>])"
    by (simp add: fetchTopLanguages_def scenario_A_def add_page_def add_repo_def add_edge_def
        nullish_def language_shares_def sort_cmp_def object_entries_def is_array_index_def
        OBJECT_PROTOTYPE_MEMBERS_def
        j_0 j_1 j_2 j_3 j_4 j_5 j_6 j_7 j_8 j_9)
qed


section \<open>Language aggregator: percentages\<close>






section \<open>Language aggregator: zero byte total\<close>

text \<open>
  Claim C6, at a page whose only language edge has size 0. The claim asks for an empty
  result and no \<open>NaN\<close> whenever the byte total is zero. The total of this page is 0,
  but \<open>fetchTopLanguages\<close> returns one entry, and its percent is \<open>0 / 0 * 100\<close>,
  that is \<open>NaN\<close>. (With no language edge at all the result is empty, see
  \<open>language_shares_zero_total\<close>.)
\<close>

theorem fetchTopLanguages_zero_size_NaN:
  "total_bytes zero_size_page = 0 \<and>
   fst (fetchTopLanguages (map Inr zero_size_page)) =
     Some (Inr [\<lparr>share_name = ''Markdown'', share_color = ''#9e9e9e'', percent = NaN\<rparr>])"
proof -
  have j: "js_round 0 = Number 0" by (rule js_round_small) simp_all
  show ?thesis
    by (simp add: total_bytes_def edges_of_def edge_bytes_def fetchTopLanguages_def
        zero_size_page_def add_page_def add_repo_def add_edge_def nullish_def language_shares_def
        sort_cmp_def object_entries_def is_array_index_def OBJECT_PROTOTYPE_MEMBERS_def j)
qed


section \<open>Pipelines: validation of the configuration\<close>

text \<open>
  The stats and the top-languages pipelines test the user name and the token before
  anything else and answer with the error image without a request to the network. The
  streak pipeline tests the user name only: its result does not depend on the token, and
  with a user name and a joining date in the past it always sends the calendar query.
\<close>

declare fetch_contributions_loop.simps [simp del]

lemma fetchTotalCommitsAllTime_returns:
  "\<exists>n. fst (fetchTotalCommitsAllTime request login) = Inr n"
  by (simp add: fetchTotalCommitsAllTime_def split: sum.splits)

lemma fetchTotalCommitsAllTime_failure:
  "request login = Inl err \<Longrightarrow> fst (fetchTotalCommitsAllTime request login) = Inr 0"
  by (simp add: fetchTotalCommitsAllTime_def)

lemma buildStatsSvg_validates:
  "falsy (GITHUB_USERNAME env) \<Longrightarrow>
     buildStatsSvg env w =
       (ErrorSvg ''Error: Add github username in env.GITHUB_USERNAME'',
        [ConsoleError ''GET error: Add github username in env.GITHUB_USERNAME''])"
  "\<not> falsy (GITHUB_USERNAME env) \<Longrightarrow> falsy (GITHUB_TOKEN env) \<Longrightarrow>
     buildStatsSvg env w =
       (ErrorSvg ''Error: Add github token in env.GITHUB_TOKEN'',
        [ConsoleError ''GET error: Add github token in env.GITHUB_TOKEN''])"
  by (auto simp: buildStatsSvg_def stats_try_def falsy_def split: option.splits)

lemma GET_top_langs_validates:
  "falsy (GITHUB_USERNAME env) \<Longrightarrow>
     GET_top_langs env answers =
       (Some (ErrorSvg ''Error: Missing GITHUB_USERNAME''),
        [ConsoleError ''GET error: Missing GITHUB_USERNAME''])"
  "\<not> falsy (GITHUB_USERNAME env) \<Longrightarrow> falsy (GITHUB_TOKEN env) \<Longrightarrow>
     GET_top_langs env answers =
       (Some (ErrorSvg ''Error: Missing GITHUB_TOKEN''),
        [ConsoleError ''GET error: Missing GITHUB_TOKEN''])"
  by (simp_all add: GET_top_langs_def)

lemma buildStreakSvg_validates_username:
  "falsy (GITHUB_USERNAME env) \<Longrightarrow>
     buildStreakSvg env graphql from now dateTime =
       (ErrorSvg ''Error: Add github username in env.GITHUB_USERNAME'', [])"
  by (auto simp: buildStreakSvg_def streak_try_def falsy_def split: option.splits)

lemma buildStreakSvg_ignores_token:
  "buildStreakSvg (env\<lparr>GITHUB_TOKEN := t\<rparr>) graphql from now dateTime =
   buildStreakSvg env graphql from now dateTime"
  by (simp add: buildStreakSvg_def streak_try_def)

lemma fetch_contributions_loop_calls:
  "start < to \<Longrightarrow>
   \<exists>fx. snd (fetch_contributions_loop graphql username to start contributions running_total)
          = NetworkCall ''graphql'' # fx"
  by (subst fetch_contributions_loop.simps) (simp split: sum.splits prod.splits)

lemma snd_streak_try:
  "GITHUB_USERNAME env = Some username \<Longrightarrow> username \<noteq> '''' \<Longrightarrow>
   \<exists>more. snd (streak_try env graphql from now dateTime)
            = snd (fetchContributions graphql username from now) @ more"
  by (simp add: streak_try_def Let_def split: sum.splits prod.splits)

lemma buildStreakSvg_calls:
  assumes "GITHUB_USERNAME env = Some username" "username \<noteq> ''''" "from < now"
  shows "\<exists>fx. snd (buildStreakSvg env graphql from now dateTime) = NetworkCall ''graphql'' # fx"
proof -
  have 1: "snd (buildStreakSvg env graphql from now dateTime)
      = snd (streak_try env graphql from now dateTime)"
    by (simp add: buildStreakSvg_def split: sum.splits prod.splits)
  from snd_streak_try [OF assms(1,2)] obtain more
    where 2: "snd (streak_try env graphql from now dateTime)
                = snd (fetchContributions graphql username from now) @ more" by blast
  from fetch_contributions_loop_calls [OF assms(3)] obtain fx
    where 3: "snd (fetchContributions graphql username from now) = NetworkCall ''graphql'' # fx"
    unfolding fetchContributions_def by blast
  show ?thesis unfolding 1 2 3 by simp
qed

section \<open>Stats pipeline: a failing commit search\<close>

text \<open>
  Claim C8. Whenever the commit-search request fails, \<open>fetchTotalCommitsAllTime\<close>
  catches the error and returns 0; it never lets an error out, whatever the request
  does. The request as a whole then answers exactly as it would for a search that
  succeeds with a count of 0: when the other sources answer, the reviews and followers
  are still fetched after the failure and the stats card is produced with 0 commits.
\<close>

theorem commit_search_failure_degrades_to_zero:
  "(search_commits w login = Inl err \<longrightarrow>
      fst (fetchTotalCommitsAllTime (search_commits w) login) = Inr 0) \<and>
   (\<exists>n. fst (fetchTotalCommitsAllTime request login') = Inr n) \<and>
   (GITHUB_USERNAME env = Some login \<and> search_commits w login = Inl err \<longrightarrow>
      fst (buildStatsSvg env w) =
        fst (buildStatsSvg env
               (w\<lparr>search_commits := \<lambda>l. Inr \<lparr>data = Some \<lparr>total_count = Some 0\<rparr>\<rparr>\<rparr>))) \<and>
   (GITHUB_USERNAME env = Some login \<and> login \<noteq> '''' \<and> \<not> falsy (GITHUB_TOKEN env) \<and>
    search_commits w login = Inl err \<and> fetchAllRepos w login = Inr r \<and>
    fetchTotalReviewsAllTime w login = Inr totalReviews \<and>
    fetchFollowersCount w login = Inr totalFollowers \<longrightarrow>
      (\<exists>summary. fst (buildStatsSvg env w) = StatsSvg summary \<and>
         card_totalCommits summary = 0 \<and> card_totalStars summary = totalStars r) \<and>
      snd (buildStatsSvg env w) =
        [NetworkCall ''fetchAllRepos'', NetworkCall ''GET /search/commits'',
         ConsoleError (''fetchTotalCommitsAllTime error: '' @ err),
         NetworkCall ''fetchTotalReviewsAllTime'', NetworkCall ''fetchFollowersCount''])"
proof (intro conjI impI)
  show "\<exists>n. fst (fetchTotalCommitsAllTime request login') = Inr n"
    by (rule fetchTotalCommitsAllTime_returns)
next
  assume "search_commits w login = Inl err"
  then show "fst (fetchTotalCommitsAllTime (search_commits w) login) = Inr 0"
    by (rule fetchTotalCommitsAllTime_failure)
next
  assume "GITHUB_USERNAME env = Some login \<and> search_commits w login = Inl err"
  then show "fst (buildStatsSvg env w) =
        fst (buildStatsSvg env
               (w\<lparr>search_commits := \<lambda>l. Inr \<lparr>data = Some \<lparr>total_count = Some 0\<rparr>\<rparr>\<rparr>))"
    by (simp add: buildStatsSvg_def stats_try_def fetchTotalCommitsAllTime_def nullish_def
        split: sum.splits)
next
  assume a: "GITHUB_USERNAME env = Some login \<and> login \<noteq> '''' \<and> \<not> falsy (GITHUB_TOKEN env) \<and>
    search_commits w login = Inl err \<and> fetchAllRepos w login = Inr r \<and>
    fetchTotalReviewsAllTime w login = Inr totalReviews \<and>
    fetchFollowersCount w login = Inr totalFollowers"
  then show "\<exists>summary. fst (buildStatsSvg env w) = StatsSvg summary \<and>
         card_totalCommits summary = 0 \<and> card_totalStars summary = totalStars r"
    by (simp add: buildStatsSvg_def stats_try_def fetchTotalCommitsAllTime_def)
  from a show "snd (buildStatsSvg env w) =
        [NetworkCall ''fetchAllRepos'', NetworkCall ''GET /search/commits'',
         ConsoleError (''fetchTotalCommitsAllTime error: '' @ err),
         NetworkCall ''fetchTotalReviewsAllTime'', NetworkCall ''fetchFollowersCount'']"
    by (simp add: buildStatsSvg_def stats_try_def fetchTotalCommitsAllTime_def)
qed

theorem commit_search_failure_degrades_to_zero_witness:
  "search_commits example_world ''octocat'' = Inl ''API rate limit exceeded'' \<and>
   fst (fetchTotalCommitsAllTime (search_commits example_world) ''octocat'') = Inr 0 \<and>
   (\<exists>summary. fst (buildStatsSvg example_env example_world) = StatsSvg summary \<and>
      card_totalCommits summary = 0 \<and> card_totalStars summary = 50) \<and>
   snd (buildStatsSvg example_env example_world) =
     [NetworkCall ''fetchAllRepos'', NetworkCall ''GET /search/commits'',
      ConsoleError ''fetchTotalCommitsAllTime error: API rate limit exceeded'',
      NetworkCall ''fetchTotalReviewsAllTime'', NetworkCall ''fetchFollowersCount'']"
proof -
  have "GITHUB_USERNAME example_env = Some ''octocat'' \<and> ''octocat'' \<noteq> '''' \<and>
    \<not> falsy (GITHUB_TOKEN example_env) \<and>
    search_commits example_world ''octocat'' = Inl ''API rate limit exceeded'' \<and>
    fetchAllRepos example_world ''octocat'' =
      Inr \<lparr>totalStars = 50, totalForks = 3, repoCount = 7, activeReposLastYear = 2,
           totalPRs = 50, totalIssues = 25\<rparr> \<and>
    fetchTotalReviewsAllTime example_world ''octocat'' = Inr 2 \<and>
    fetchFollowersCount example_world ''octocat'' = Inr 10"
    by (simp add: example_env_def example_world_def falsy_def)
  with commit_search_failure_degrades_to_zero
    [where w = example_world and login = "''octocat''" and err = "''API rate limit exceeded''"
       and env = example_env and totalReviews = 2 and totalFollowers = 10
       and r = "\<lparr>totalStars = 50, totalForks = 3, repoCount = 7, activeReposLastYear = 2,
                  totalPRs = 50, totalIssues = 25\<rparr>"
       and request = "search_commits example_world" and login' = "''octocat''"]
  have "fst (fetchTotalCommitsAllTime (search_commits example_world) ''octocat'') = Inr 0"
    and "\<exists>summary. fst (buildStatsSvg example_env example_world) = StatsSvg summary \<and>
      card_totalCommits summary = 0 \<and>
      card_totalStars summary = totalStars \<lparr>totalStars = 50, totalForks = 3, repoCount = 7,
        activeReposLastYear = 2, totalPRs = 50, totalIssues = 25\<rparr>"
    and "snd (buildStatsSvg example_env example_world) =
     [NetworkCall ''fetchAllRepos'', NetworkCall ''GET /search/commits'',
      ConsoleError (''fetchTotalCommitsAllTime error: '' @ ''API rate limit exceeded''),
      NetworkCall ''fetchTotalReviewsAllTime'', NetworkCall ''fetchFollowersCount'']"
    by blast+
  moreover have "search_commits example_world ''octocat'' = Inl ''API rate limit exceeded''"
    by (simp add: example_world_def)
  ultimately show ?thesis by simp
qed

section \<open>Pipelines: a request without a token\<close>

text \<open>
  Claim C9, at a streak request whose configuration has a user name and no token, with a
  joining date before the time of the request. The claim asks every pipeline to stop
  with a descriptive failure before any network call when the token is absent. The stats
  and the top-languages pipelines do so; the streak pipeline sends the calendar query,
  and the error it shows is the one the API answers with.
\<close>

theorem streak_request_without_token_calls_network:
  "buildStreakSvg env_without_token (\<lambda>login start end. Inl ''Bad credentials'') 0 1000 (\<lambda>d. 0) =
     (ErrorSvg ''Error: Bad credentials'', [NetworkCall ''graphql'']) \<and>
   buildStatsSvg env_without_token example_world =
     (ErrorSvg ''Error: Add github token in env.GITHUB_TOKEN'',
      [ConsoleError ''GET error: Add github token in env.GITHUB_TOKEN'']) \<and>
   GET_top_langs env_without_token (map Inr scenario_A) =
     (Some (ErrorSvg ''Error: Missing GITHUB_TOKEN''),
      [ConsoleError ''GET error: Missing GITHUB_TOKEN''])"
  by (simp add: buildStreakSvg_def streak_try_def fetchContributions_def
      fetch_contributions_loop.simps env_without_token_def buildStatsSvg_def stats_try_def
      GET_top_langs_def falsy_def)

end
